theory Spec2Isabelle
  imports Main "HOL-Library.Word"
begin

unbundle bit_operations_syntax

section \<open>Bytes, C strings and process outcomes\<close>

type_synonym byte = "8 word"
type_synonym bytes = "byte list"

text \<open>
  A \<open>const char *\<close> argument is modelled by the bytes stored from the pointer on; the
  terminating NUL of the C string is the first zero byte of that memory, or lies just
  behind the list when the list holds none. \<open>strlen\<close> is a \<open>size_t\<close> that the program
  passes on as an \<open>int\<close>; a password is a command-line argument, far shorter than
  \<open>INT_MAX\<close>, so the length is a natural number here.
\<close>

definition strlen :: "bytes \<Rightarrow> nat" where
  "strlen s = length (takeWhile (\<lambda>c. c \<noteq> 0) s)"

text \<open>
  Both worker functions are \<open>void\<close>: they either return, or print a message to stderr
  and leave through \<open>exit(1)\<close>. \<open>Exited st msg\<close> records the exit status and the message.
\<close>

datatype outcome = Returned | Exited int string

section \<open>The libcrypto primitives the program is linked against\<close>

text \<open>
  SHA-256 and the Triple-DES block permutation are not part of the program; they are
  parameters of the model. \<open>sha256\<close> is the one-shot digest
  (\<open>EVP_DigestInit_ex\<close>, \<open>EVP_DigestUpdate\<close>, \<open>EVP_DigestFinal_ex\<close>), with \<open>None\<close>
  when the digest engine reports failure. \<open>des_ede3_encrypt k b\<close> and
  \<open>des_ede3_decrypt k b\<close> transform one 8-byte block \<open>b\<close> under the 24-byte key \<open>k\<close>.
  \<open>ctx_new_ok\<close> says whether \<open>EVP_CIPHER_CTX_new\<close> returns a context,
  \<open>cipher_init_ok\<close> whether \<open>EVP_EncryptInit_ex\<close> / \<open>EVP_DecryptInit_ex\<close> accept
  the cipher, key and IV.
\<close>

record libcrypto =
  sha256 :: "bytes \<Rightarrow> bytes option"
  des_ede3_encrypt :: "bytes \<Rightarrow> bytes \<Rightarrow> bytes"
  des_ede3_decrypt :: "bytes \<Rightarrow> bytes \<Rightarrow> bytes"
  ctx_new_ok :: bool
  cipher_init_ok :: bool

record EVP_CIPHER =
  key_length :: nat
  iv_length :: nat
  block_size :: nat

definition EVP_des_ede3_cbc :: EVP_CIPHER where
  "EVP_des_ede3_cbc = \<lparr>key_length = 24, iv_length = 8, block_size = 8\<rparr>"

subsection \<open>\<open>EVP_BytesToKey\<close>\<close>

text \<open>
  The inner loop \<open>for (i = 1; i < count; i++)\<close> of \<open>EVP_BytesToKey\<close>: the digest buffer
  is digested again \<open>count - 1\<close> times; a digest failure jumps to \<open>err\<close>.
\<close>

primrec redigest :: "(bytes \<Rightarrow> bytes option) \<Rightarrow> nat \<Rightarrow> bytes \<Rightarrow> bytes option" where
  "redigest md 0 d = Some d"
| "redigest md (Suc n) d = (case md d of None \<Rightarrow> None | Some d' \<Rightarrow> redigest md n d')"

text \<open>
  The outer \<open>for (;;)\<close> loop. \<open>md_buf\<close> is the previous digest (empty in the first round,
  where \<open>addmd\<close> is still 0), \<open>nkey\<close> and \<open>niv\<close> count the key and IV bytes still to
  produce, \<open>key\<close> and \<open>iv\<close> are the bytes stored so far through the two output
  pointers. Each round digests \<open>md_buf \<parallel> data \<parallel> salt\<close>, copies digest bytes to the key
  until \<open>nkey\<close> is 0 or the digest is used up, then the following digest bytes to the IV
  in the same way, and stops once both counters are 0. The result is the function's
  return value (the key length, or 0 after a digest failure) with the bytes stored.
  The loop has no other exit: with a digest of zero length it runs forever, which is the
  value \<open>None\<close>.
\<close>

partial_function (option) BytesToKey_loop ::
  "(bytes \<Rightarrow> bytes option) \<Rightarrow> bytes option \<Rightarrow> bytes \<Rightarrow> nat \<Rightarrow> nat \<Rightarrow>
   bytes \<Rightarrow> nat \<Rightarrow> nat \<Rightarrow> bytes \<Rightarrow> bytes \<Rightarrow> (int \<times> bytes \<times> bytes) option" where
  "BytesToKey_loop md salt data count rv md_buf nkey niv key iv =
     (case md (md_buf @ data @ (case salt of None \<Rightarrow> [] | Some s \<Rightarrow> take 8 s)) of
        None \<Rightarrow> Some (0, key, iv)
      | Some d1 \<Rightarrow>
          (case redigest md (count - 1) d1 of
             None \<Rightarrow> Some (0, key, iv)
           | Some d \<Rightarrow>
               (let kn = min nkey (length d);
                    vn = min niv (length d - kn);
                    key' = key @ take kn d;
                    iv' = iv @ take vn (drop kn d)
                in if nkey - kn = 0 \<and> niv - vn = 0 then Some (int rv, key', iv')
                   else BytesToKey_loop md salt data count rv d (nkey - kn) (niv - vn) key' iv')))"

declare BytesToKey_loop.simps [code]

text \<open>
  \<open>EVP_BytesToKey(type, md, salt, data, datal, count, key, iv)\<close>: the caller's buffers
  \<open>key\<close> and \<open>iv\<close> keep their previous contents behind the bytes stored.
\<close>

definition EVP_BytesToKey ::
  "EVP_CIPHER \<Rightarrow> (bytes \<Rightarrow> bytes option) \<Rightarrow> bytes option \<Rightarrow> bytes \<Rightarrow> nat \<Rightarrow> nat \<Rightarrow>
   bytes \<Rightarrow> bytes \<Rightarrow> (int \<times> bytes \<times> bytes) option" where
  "EVP_BytesToKey type md salt data datal count key iv =
     (case BytesToKey_loop md salt (take datal data) count (key_length type) []
             (key_length type) (iv_length type) [] [] of
        None \<Rightarrow> None
      | Some (rv, kw, vw) \<Rightarrow> Some (rv, kw @ drop (length kw) key, vw @ drop (length vw) iv))"

section \<open>Key derivation\<close>

text \<open>
  \<open>generate_key_iv(password, key, iv)\<close>. The arguments \<open>key\<close> and \<open>iv\<close> are the contents
  of the caller's buffers before the call. The result is \<open>None\<close> when the call does not
  return at all, \<open>Inl\<close> when the process exits, and \<open>Inr (1, key', iv')\<close> with the new
  buffer contents when the function returns 1.
\<close>

definition generate_key_iv ::
  "libcrypto \<Rightarrow> bytes \<Rightarrow> bytes \<Rightarrow> bytes \<Rightarrow> (outcome + int \<times> bytes \<times> bytes) option" where
  "generate_key_iv lib password key iv =
     (case EVP_BytesToKey EVP_des_ede3_cbc (sha256 lib) None password (strlen password) 1 key iv of
        None \<Rightarrow> None
      | Some (r, key', iv') \<Rightarrow>
          if r = 0 then Some (Inl (Exited 1 ''Error occurred\<newline>''))
          else Some (Inr (1, key', iv')))"

section \<open>The cipher context\<close>

text \<open>
  The fields of \<open>EVP_CIPHER_CTX\<close> that Triple-DES in CBC mode with padding uses: the
  key, the chaining register \<open>iv\<close>, the partial block \<open>buf\<close> (its length is
  \<open>buf_len\<close>), and on decryption the held-back block \<open>final\<close> with its flag.
\<close>

record EVP_CIPHER_CTX =
  ctx_key :: bytes
  ctx_iv :: bytes
  buf :: bytes
  final :: bytes
  final_used :: bool

definition EVP_CIPHER_CTX_new :: "libcrypto \<Rightarrow> EVP_CIPHER_CTX option" where
  "EVP_CIPHER_CTX_new lib =
     (if ctx_new_ok lib
      then Some \<lparr>ctx_key = [], ctx_iv = [], buf = [], final = [], final_used = False\<rparr>
      else None)"

text \<open>
  \<open>EVP_EncryptInit_ex(ctx, cipher, NULL, key, iv)\<close> and its decryption twin copy
  \<open>key_length\<close> bytes of the key buffer and \<open>iv_length\<close> bytes of the IV buffer into the
  context and reset the block buffers.
\<close>

definition EVP_CipherInit :: "libcrypto \<Rightarrow> EVP_CIPHER_CTX \<Rightarrow> EVP_CIPHER \<Rightarrow> bytes \<Rightarrow> bytes \<Rightarrow> int \<times> EVP_CIPHER_CTX" where
  "EVP_CipherInit lib ctx cipher key iv =
     (if cipher_init_ok lib
      then (1, \<lparr>ctx_key = take (key_length cipher) key, ctx_iv = take (iv_length cipher) iv,
                buf = [], final = [], final_used = False\<rparr>)
      else (0, ctx))"

definition EVP_EncryptInit_ex :: "libcrypto \<Rightarrow> EVP_CIPHER_CTX \<Rightarrow> EVP_CIPHER \<Rightarrow> bytes \<Rightarrow> bytes \<Rightarrow> int \<times> EVP_CIPHER_CTX" where
  "EVP_EncryptInit_ex = EVP_CipherInit"

definition EVP_DecryptInit_ex :: "libcrypto \<Rightarrow> EVP_CIPHER_CTX \<Rightarrow> EVP_CIPHER \<Rightarrow> bytes \<Rightarrow> bytes \<Rightarrow> int \<times> EVP_CIPHER_CTX" where
  "EVP_DecryptInit_ex = EVP_CipherInit"

subsection \<open>Cipher block chaining over whole blocks\<close>

text \<open>
  \<open>cbc_encrypt lib k iv inp\<close> encrypts the whole 8-byte blocks of \<open>inp\<close>: every block is
  XORed with the previous ciphertext block (the IV for the first) and then encrypted.
  It returns the ciphertext and the new chaining value. \<open>cbc_decrypt\<close> is the inverse
  direction: a block is decrypted, then XORed with the previous ciphertext block.
\<close>

function cbc_encrypt :: "libcrypto \<Rightarrow> bytes \<Rightarrow> bytes \<Rightarrow> bytes \<Rightarrow> bytes \<times> bytes" where
  "cbc_encrypt lib k iv inp =
     (if length inp < 8 then ([], iv)
      else (des_ede3_encrypt lib k (map2 (XOR) iv (take 8 inp)) @
              fst (cbc_encrypt lib k (des_ede3_encrypt lib k (map2 (XOR) iv (take 8 inp))) (drop 8 inp)),
            snd (cbc_encrypt lib k (des_ede3_encrypt lib k (map2 (XOR) iv (take 8 inp))) (drop 8 inp))))"
  by pat_completeness auto
termination
  by (relation "measure (\<lambda>(lib, k, iv, inp). length inp)") auto

function cbc_decrypt :: "libcrypto \<Rightarrow> bytes \<Rightarrow> bytes \<Rightarrow> bytes \<Rightarrow> bytes \<times> bytes" where
  "cbc_decrypt lib k iv inp =
     (if length inp < 8 then ([], iv)
      else (map2 (XOR) iv (des_ede3_decrypt lib k (take 8 inp)) @
              fst (cbc_decrypt lib k (take 8 inp) (drop 8 inp)),
            snd (cbc_decrypt lib k (take 8 inp) (drop 8 inp))))"
  by pat_completeness auto
termination
  by (relation "measure (\<lambda>(lib, k, iv, inp). length inp)") auto

declare cbc_encrypt.simps [simp del]
declare cbc_decrypt.simps [simp del]

subsection \<open>Update and final calls\<close>

text \<open>The largest multiple of the block size below a length: \<open>inl - (inl & 7)\<close>.\<close>

definition whole_blocks :: "nat \<Rightarrow> nat" where
  "whole_blocks n = n - n mod 8"

text \<open>
  \<open>EVP_EncryptUpdate(ctx, out, &outl, in, inl)\<close>: with \<open>inl = 0\<close> nothing happens.
  Otherwise the buffered partial block and the input are taken together, all whole
  blocks are encrypted to \<open>out\<close>, and the remaining bytes (fewer than 8) stay in
  \<open>buf\<close>. The result is the return value, the \<open>outl\<close> bytes of \<open>out\<close>, and the context.
\<close>

definition EVP_EncryptUpdate :: "libcrypto \<Rightarrow> EVP_CIPHER_CTX \<Rightarrow> bytes \<Rightarrow> int \<times> bytes \<times> EVP_CIPHER_CTX" where
  "EVP_EncryptUpdate lib ctx inp =
     (if inp = [] then (1, [], ctx)
      else
        (let data = buf ctx @ inp;
             n = whole_blocks (length data);
             r = cbc_encrypt lib (ctx_key ctx) (ctx_iv ctx) (take n data)
         in (1, fst r, ctx\<lparr>ctx_iv := snd r, buf := drop n data\<rparr>)))"

text \<open>
  \<open>EVP_EncryptFinal_ex(ctx, out, &outl)\<close>: the partial block is filled up to 8 bytes with
  \<open>n = 8 - buf_len\<close> bytes of value \<open>n\<close> and encrypted; \<open>outl\<close> is one block.
\<close>

definition EVP_EncryptFinal_ex :: "libcrypto \<Rightarrow> EVP_CIPHER_CTX \<Rightarrow> int \<times> bytes" where
  "EVP_EncryptFinal_ex lib ctx =
     (let bl = length (buf ctx);
          n = 8 - bl
      in (1, fst (cbc_encrypt lib (ctx_key ctx) (ctx_iv ctx) (buf ctx @ replicate n (of_nat n)))))"

text \<open>
  \<open>EVP_DecryptUpdate(ctx, out, &outl, in, inl)\<close>: with \<open>inl = 0\<close> nothing happens.
  Otherwise a block held back by the previous call (\<open>final_used\<close>) is written first,
  then all whole blocks of buffer and input are decrypted. When no partial block
  remains, the last decrypted block is not written but kept in \<open>final\<close>, since it may
  hold the padding; otherwise nothing is held back.
\<close>

definition EVP_DecryptUpdate :: "libcrypto \<Rightarrow> EVP_CIPHER_CTX \<Rightarrow> bytes \<Rightarrow> int \<times> bytes \<times> EVP_CIPHER_CTX" where
  "EVP_DecryptUpdate lib ctx inp =
     (if inp = [] then (1, [], ctx)
      else
        (let held = (if final_used ctx then final ctx else []);
             data = buf ctx @ inp;
             n = whole_blocks (length data);
             r = cbc_decrypt lib (ctx_key ctx) (ctx_iv ctx) (take n data);
             plain = fst r
         in if drop n data = []
            then (1, held @ take (length plain - 8) plain,
                  ctx\<lparr>ctx_iv := snd r, buf := [],
                      final := drop (length plain - 8) plain, final_used := True\<rparr>)
            else (1, held @ plain,
                  ctx\<lparr>ctx_iv := snd r, buf := drop n data, final_used := False\<rparr>)))"

text \<open>
  \<open>EVP_DecryptFinal_ex(ctx, out, &outl)\<close> fails (returns 0) when a partial block is left
  or no block is held back. Otherwise \<open>n\<close> is the last byte of the held-back block; the
  call fails when \<open>n\<close> is 0 or more than 8, or when one of \<open>final[7]\<close>, \<open>final[6]\<close>, ...,
  \<open>final[8 - n]\<close> differs from \<open>n\<close>. On success the first \<open>8 - n\<close> bytes of the block are
  the output.
\<close>

definition EVP_DecryptFinal_ex :: "EVP_CIPHER_CTX \<Rightarrow> int \<times> bytes" where
  "EVP_DecryptFinal_ex ctx =
     (if buf ctx \<noteq> [] \<or> \<not> final_used ctx then (0, [])
      else
        (let n = unat (final ctx ! 7)
         in if n = 0 \<or> n > 8 then (0, [])
            else if list_ex (\<lambda>i. final ctx ! (7 - i) \<noteq> of_nat n) [0..<n] then (0, [])
            else (1, take (8 - n) (final ctx))))"

section \<open>The two file streams\<close>

text \<open>
  An input stream holds the bytes not yet read. \<open>short_reads\<close> lists, call by call, how
  many bytes the device hands over at most before \<open>fread\<close> gives up (a read error or an
  interrupted device); when the list is used up only the end of the data cuts a read
  short. \<open>fread(inbuf, 1, n, in)\<close> returns the bytes stored in \<open>inbuf\<close> (their number is
  the return value) and the stream.
\<close>

record istream =
  content :: bytes
  short_reads :: "nat list"

definition fread :: "nat \<Rightarrow> istream \<Rightarrow> bytes \<times> istream" where
  "fread n f =
     (let k = (case short_reads f of [] \<Rightarrow> n | a # _ \<Rightarrow> min n a)
      in (take k (content f), \<lparr>content = drop k (content f), short_reads = tl (short_reads f)\<rparr>))"

text \<open>
  An output stream holds the bytes written so far. \<open>room\<close> is the number of bytes the
  device still accepts (\<open>None\<close>: no limit); \<open>fwrite(outbuf, 1, n, out)\<close> writes as many of
  the bytes as there is room for and returns their number.
\<close>

record ostream =
  written :: bytes
  room :: "nat option"

definition fwrite :: "bytes \<Rightarrow> ostream \<Rightarrow> nat \<times> ostream" where
  "fwrite outbuf f =
     (let k = (case room f of None \<Rightarrow> length outbuf | Some r \<Rightarrow> min r (length outbuf))
      in (k, \<lparr>written = written f @ take k outbuf, room = map_option (\<lambda>r. r - k) (room f)\<rparr>))"

section \<open>Encrypting and decrypting a file\<close>

definition BUF_SIZE :: nat where
  "BUF_SIZE = 1024 * 1024"

text \<open>
  The loop \<open>while ((num_bytes_read = fread(inbuf, 1, BUF_SIZE, in)) > 0)\<close> of
  \<open>encrypt_file\<close>. The value of \<open>fwrite\<close> is dropped, as in the source.
\<close>

function encrypt_loop ::
  "libcrypto \<Rightarrow> EVP_CIPHER_CTX \<Rightarrow> istream \<Rightarrow> ostream \<Rightarrow> outcome \<times> EVP_CIPHER_CTX \<times> ostream" where
  "encrypt_loop lib ctx inp out =
     (case fread BUF_SIZE inp of
        (inbuf, inp') \<Rightarrow>
          if int (length inbuf) > 0 then
            (case EVP_EncryptUpdate lib ctx inbuf of
               (r, outbuf, ctx') \<Rightarrow>
                 if r \<noteq> 1 then (Exited 1 ''Error occurred\<newline>'', ctx', out)
                 else encrypt_loop lib ctx' inp' (snd (fwrite outbuf out)))
          else (Returned, ctx, out))"
  by pat_completeness auto
termination
  by (relation "measure (\<lambda>(lib, ctx, inp, out). length (content inp))")
     (auto simp: fread_def Let_def split: list.splits)

text \<open>The same loop in \<open>decrypt_file\<close>, around \<open>EVP_DecryptUpdate\<close>.\<close>

function decrypt_loop ::
  "libcrypto \<Rightarrow> EVP_CIPHER_CTX \<Rightarrow> istream \<Rightarrow> ostream \<Rightarrow> outcome \<times> EVP_CIPHER_CTX \<times> ostream" where
  "decrypt_loop lib ctx inp out =
     (case fread BUF_SIZE inp of
        (inbuf, inp') \<Rightarrow>
          if int (length inbuf) > 0 then
            (case EVP_DecryptUpdate lib ctx inbuf of
               (r, outbuf, ctx') \<Rightarrow>
                 if r \<noteq> 1 then (Exited 1 ''Error occurred\<newline>'', ctx', out)
                 else decrypt_loop lib ctx' inp' (snd (fwrite outbuf out)))
          else (Returned, ctx, out))"
  by pat_completeness auto
termination
  by (relation "measure (\<lambda>(lib, ctx, inp, out). length (content inp))")
     (auto simp: fread_def Let_def split: list.splits)

declare encrypt_loop.simps [simp del]
declare decrypt_loop.simps [simp del]

text \<open>
  \<open>encrypt_file(input_file, output_file, password)\<close>. The two file names are modelled by
  what \<open>fopen\<close> returns for them: \<open>None\<close> for \<open>NULL\<close>, otherwise the opened stream (the
  output stream is empty, as mode \<open>"wb"\<close> truncates; when both names are the same file,
  the input stream is the truncated, empty file). \<open>key\<close> and \<open>iv\<close> are the
  uninitialised contents of the two local arrays. The result is \<open>None\<close> when the call
  never comes back, otherwise the outcome with the bytes that reached the output file.
\<close>

definition encrypt_file ::
  "libcrypto \<Rightarrow> istream option \<Rightarrow> ostream option \<Rightarrow> bytes \<Rightarrow> bytes \<Rightarrow> bytes \<Rightarrow> (outcome \<times> bytes) option" where
  "encrypt_file lib input_file output_file password key iv =
     (case (input_file, output_file) of
        (Some inp, Some out) \<Rightarrow>
          (case generate_key_iv lib password key iv of
             None \<Rightarrow> None
           | Some (Inl e) \<Rightarrow> Some (e, written out)
           | Some (Inr (g, key', iv')) \<Rightarrow>
               if g = 0 then Some (Exited 1 ''Error occurred\<newline>'', written out)
               else
                 (case EVP_CIPHER_CTX_new lib of
                    None \<Rightarrow> Some (Exited 1 ''Error occurred\<newline>'', written out)
                  | Some ctx0 \<Rightarrow>
                      (case EVP_EncryptInit_ex lib ctx0 EVP_des_ede3_cbc key' iv' of
                         (r, ctx) \<Rightarrow>
                           if r \<noteq> 1 then Some (Exited 1 ''Error occurred\<newline>'', written out)
                           else
                             (case encrypt_loop lib ctx inp out of
                                (Exited st msg, ctx1, out1) \<Rightarrow> Some (Exited st msg, written out1)
                              | (Returned, ctx1, out1) \<Rightarrow>
                                  (case EVP_EncryptFinal_ex lib ctx1 of
                                     (r', outbuf) \<Rightarrow>
                                       if r' \<noteq> 1 then Some (Exited 1 ''Error occurred\<newline>'', written out1)
                                       else Some (Returned, written (snd (fwrite outbuf out1))))))))
      | (_, Some out) \<Rightarrow> Some (Exited 1 ''Unable to open input or output file\<newline>'', written out)
      | (_, None) \<Rightarrow> Some (Exited 1 ''Unable to open input or output file\<newline>'', []))"

text \<open>
  \<open>decrypt_file(input_file, output_file, password)\<close>, line by line the twin of
  \<open>encrypt_file\<close>; \<open>EVP_DecryptFinal_ex\<close> is the call that can fail here.
\<close>

definition decrypt_file ::
  "libcrypto \<Rightarrow> istream option \<Rightarrow> ostream option \<Rightarrow> bytes \<Rightarrow> bytes \<Rightarrow> bytes \<Rightarrow> (outcome \<times> bytes) option" where
  "decrypt_file lib input_file output_file password key iv =
     (case (input_file, output_file) of
        (Some inp, Some out) \<Rightarrow>
          (case generate_key_iv lib password key iv of
             None \<Rightarrow> None
           | Some (Inl e) \<Rightarrow> Some (e, written out)
           | Some (Inr (g, key', iv')) \<Rightarrow>
               if g = 0 then Some (Exited 1 ''Error occurred\<newline>'', written out)
               else
                 (case EVP_CIPHER_CTX_new lib of
                    None \<Rightarrow> Some (Exited 1 ''Error occurred\<newline>'', written out)
                  | Some ctx0 \<Rightarrow>
                      (case EVP_DecryptInit_ex lib ctx0 EVP_des_ede3_cbc key' iv' of
                         (r, ctx) \<Rightarrow>
                           if r \<noteq> 1 then Some (Exited 1 ''Error occurred\<newline>'', written out)
                           else
                             (case decrypt_loop lib ctx inp out of
                                (Exited st msg, ctx1, out1) \<Rightarrow> Some (Exited st msg, written out1)
                              | (Returned, ctx1, out1) \<Rightarrow>
                                  (case EVP_DecryptFinal_ex ctx1 of
                                     (r', outbuf) \<Rightarrow>
                                       if r' \<noteq> 1 then Some (Exited 1 ''Error occurred\<newline>'', written out1)
                                       else Some (Returned, written (snd (fwrite outbuf out1))))))))
      | (_, Some out) \<Rightarrow> Some (Exited 1 ''Unable to open input or output file\<newline>'', written out)
      | (_, None) \<Rightarrow> Some (Exited 1 ''Unable to open input or output file\<newline>'', []))"

section \<open>Notions used to state the properties\<close>

text \<open>
  PKCS#7 padding as the specification words it: the data is filled up to the next block
  boundary with \<open>n\<close> bytes of value \<open>n\<close>, a whole block of them when the length already is
  a multiple of 8.
\<close>

definition pkcs7_pad :: "bytes \<Rightarrow> bytes" where
  "pkcs7_pad b = b @ replicate (8 - length b mod 8) (of_nat (8 - length b mod 8))"

text \<open>
  Valid padding as the specification words it: the count read from the last byte lies
  in the range from 1 to the block size, and all trailing bytes equal that count.
\<close>

definition valid_padding :: "bytes \<Rightarrow> bool" where
  "valid_padding blk \<longleftrightarrow>
     (let n = unat (last blk)
      in 1 \<le> n \<and> n \<le> 8 \<and> (\<forall>b \<in> set (drop (length blk - n) blk). b = of_nat n))"

text \<open>A length rounded up to the next multiple of the block size.\<close>

definition round_up_blocks :: "nat \<Rightarrow> nat" where
  "round_up_blocks n = ((n + 7) div 8) * 8"

text \<open>
  The number of bytes that reads cut short as \<open>sr\<close> says hand over altogether (as long as
  the stream holds that many).
\<close>

definition delivered :: "nat list \<Rightarrow> nat" where
  "delivered sr = sum_list (map (min BUF_SIZE) sr)"

text \<open>A block primitive maps 8-byte blocks to 8-byte blocks.\<close>

definition block_to_block :: "(bytes \<Rightarrow> bytes \<Rightarrow> bytes) \<Rightarrow> bool" where
  "block_to_block f \<longleftrightarrow> (\<forall>k b. length b = 8 \<longrightarrow> length (f k b) = 8)"

text \<open>
  The derivation as the specification words it: starting from an empty previous digest,
  digest (previous digest \<open>\<parallel>\<close> password) again and again, concatenating the digests until
  at least \<open>want\<close> bytes are there; the first 24 bytes are the key, the next 8 the IV.
  \<open>None\<close> stands for a failure of the digest (an empty digest, which makes no progress,
  counts as one).
\<close>

function spec_digest_stream :: "(bytes \<Rightarrow> bytes option) \<Rightarrow> bytes \<Rightarrow> bytes \<Rightarrow> bytes \<Rightarrow> nat \<Rightarrow> bytes option" where
  "spec_digest_stream H password prev produced want =
     (if want \<le> length produced then Some produced
      else (case H (prev @ password) of
              None \<Rightarrow> None
            | Some d \<Rightarrow>
                if d = [] then None
                else spec_digest_stream H password d (produced @ d) want))"
  by pat_completeness auto
termination
  by (relation "measure (\<lambda>(H, password, prev, produced, want). want - length produced)")
     (auto simp: neq_Nil_conv)

declare spec_digest_stream.simps [simp del]

definition spec_derive :: "(bytes \<Rightarrow> bytes option) \<Rightarrow> bytes \<Rightarrow> (bytes \<times> bytes) option" where
  "spec_derive H password =
     (case spec_digest_stream H password [] [] (24 + 8) of
        None \<Rightarrow> None
      | Some s \<Rightarrow> Some (take 24 s, take 8 (drop 24 s)))"

text \<open>
  The key material of a call of \<open>generate_key_iv\<close>: the 24 key bytes and the 8 IV bytes
  at the front of the two buffers (the arrays are longer: \<open>EVP_MAX_KEY_LENGTH\<close> and
  \<open>EVP_MAX_IV_LENGTH\<close>), or the exit of the process.
\<close>

definition key_material :: "(outcome + int \<times> bytes \<times> bytes) option \<Rightarrow> (outcome + bytes \<times> bytes) option" where
  "key_material r = map_option (map_sum id (\<lambda>(g, k, v). (take 24 k, take 8 v))) r"

text \<open>
  The state of a decryption after the ciphertext bytes \<open>d\<close> have gone through
  \<open>EVP_DecryptUpdate\<close>, in any number of calls, starting from key \<open>k\<close> and IV \<open>iv0\<close>:
  \<open>outp\<close> is what the calls have put out together.
\<close>

definition dec_inv :: "libcrypto \<Rightarrow> bytes \<Rightarrow> bytes \<Rightarrow> bytes \<Rightarrow> EVP_CIPHER_CTX \<Rightarrow> bytes \<Rightarrow> bool" where
  "dec_inv lib k iv0 d ctx outp \<longleftrightarrow>
     ctx_key ctx = k \<and> ctx_iv ctx = snd (cbc_decrypt lib k iv0 d) \<and>
     buf ctx = drop (whole_blocks (length d)) d \<and>
     (let p = fst (cbc_decrypt lib k iv0 d)
      in if d \<noteq> [] \<and> length d mod 8 = 0
         then final_used ctx \<and> final ctx = drop (length p - 8) p \<and> outp = take (length p - 8) p
         else \<not> final_used ctx \<and> outp = p)"

text \<open>
  A small instance of the primitives, to run the model on concrete inputs: the digest
  is the message cut or zero-filled to 32 bytes, the block cipher adds 1 to every byte
  and its inverse subtracts 1; allocation and initialisation succeed. \<open>broken_digest\<close>
  is the same library with a digest engine that always fails, \<open>alloc_fails\<close> the same
  library where \<open>EVP_CIPHER_CTX_new\<close> returns \<open>NULL\<close>, and \<open>init_fails\<close> the same library
  where the initialisation of the cipher does not return 1.
\<close>

definition toy_lib :: libcrypto where
  "toy_lib = \<lparr>sha256 = (\<lambda>m. Some (take 32 (m @ replicate 32 0))),
              des_ede3_encrypt = (\<lambda>k b. map (\<lambda>x. x + 1) b),
              des_ede3_decrypt = (\<lambda>k b. map (\<lambda>x. x - 1) b),
              ctx_new_ok = True, cipher_init_ok = True\<rparr>"

definition broken_digest :: libcrypto where
  "broken_digest = toy_lib\<lparr>sha256 := (\<lambda>m. None)\<rparr>"

definition alloc_fails :: libcrypto where
  "alloc_fails = toy_lib\<lparr>ctx_new_ok := False\<rparr>"

definition init_fails :: libcrypto where
  "init_fails = toy_lib\<lparr>cipher_init_ok := False\<rparr>"

section \<open>Lemmas about the model\<close>

lemma cbc_encrypt_short: "length inp < 8 \<Longrightarrow> cbc_encrypt lib k iv inp = ([], iv)"
  by (subst cbc_encrypt.simps) simp

lemma cbc_encrypt_step:
  "8 \<le> length inp \<Longrightarrow> cbc_encrypt lib k iv inp =
     (des_ede3_encrypt lib k (map2 (XOR) iv (take 8 inp)) @
        fst (cbc_encrypt lib k (des_ede3_encrypt lib k (map2 (XOR) iv (take 8 inp))) (drop 8 inp)),
      snd (cbc_encrypt lib k (des_ede3_encrypt lib k (map2 (XOR) iv (take 8 inp))) (drop 8 inp)))"
  by (subst cbc_encrypt.simps) simp

lemma cbc_encrypt_append:
  "length xs mod 8 = 0 \<Longrightarrow>
   cbc_encrypt lib k iv (xs @ ys) =
     (fst (cbc_encrypt lib k iv xs) @ fst (cbc_encrypt lib k (snd (cbc_encrypt lib k iv xs)) ys),
      snd (cbc_encrypt lib k (snd (cbc_encrypt lib k iv xs)) ys))"
proof (induction lib k iv xs rule: cbc_encrypt.induct)
  case (1 lib k iv inp)
  show ?case
  proof (cases "length inp < 8")
    case True
    with "1.prems" have "inp = []" by simp
    then show ?thesis by (simp add: cbc_encrypt_short)
  next
    case False
    then have len: "8 \<le> length inp" by simp
    have m: "length (drop 8 inp) mod 8 = 0"
      using "1.prems" len by (simp add: mod_diff_eq [symmetric] le_mod_geq)
    have t: "take 8 (inp @ ys) = take 8 inp" "drop 8 (inp @ ys) = drop 8 inp @ ys"
      using len by simp_all
    have len': "8 \<le> length (inp @ ys)" using len by simp
    show ?thesis
      unfolding cbc_encrypt_step [OF len'] t
      using "1.IH" [OF False m] by (simp add: cbc_encrypt_step [OF len])
  qed
qed

lemma whole_blocks_mod [simp]: "whole_blocks n mod 8 = 0"
  unfolding whole_blocks_def by presburger

lemma whole_blocks_le [simp]: "whole_blocks n \<le> n"
  by (simp add: whole_blocks_def)

lemma whole_blocks_rest [simp]: "n - whole_blocks n = n mod 8"
  by (simp add: whole_blocks_def)

lemma whole_blocks_aligned: "n mod 8 = 0 \<Longrightarrow> whole_blocks n = n"
  by (simp add: whole_blocks_def)

lemma whole_blocks_add: "whole_blocks a + whole_blocks (a mod 8 + b) = whole_blocks (a + b)"
proof -
  have 1: "(a mod 8 + b) mod 8 = (a + b) mod 8" by (simp add: mod_add_left_eq)
  have 2: "(a mod 8 + b) mod 8 \<le> a mod 8 + b" by (rule mod_less_eq_dividend)
  have 3: "a mod 8 \<le> a" by simp
  show ?thesis unfolding whole_blocks_def using 1 2 3 by linarith
qed

lemma length_take_whole [simp]: "length (take (whole_blocks (length xs)) xs) = whole_blocks (length xs)"
  by simp

lemma length_drop_whole [simp]: "length (drop (whole_blocks (length xs)) xs) = length xs mod 8"
  by simp

lemma drop_whole_lt: "length (drop (whole_blocks (length xs)) xs) < 8"
  by simp

lemma take_whole_mod: "length (take (whole_blocks (length xs)) xs) mod 8 = 0"
  by simp

lemma drop_whole_append:
  "drop (whole_blocks (length (drop (whole_blocks (length d)) d @ b))) (drop (whole_blocks (length d)) d @ b) =
   drop (whole_blocks (length (d @ b))) (d @ b)"
proof -
  let ?n = "whole_blocks (length d)"
  let ?m = "whole_blocks (length (drop ?n d @ b))"
  have "drop ?n d @ b = drop ?n (d @ b)" by simp
  then have "drop ?m (drop ?n d @ b) = drop (?m + ?n) (d @ b)"
    by (simp only: drop_drop)
  moreover have "?m + ?n = whole_blocks (length (d @ b))"
    using whole_blocks_add [of "length d" "length b"] by (simp add: add.commute)
  ultimately show ?thesis by simp
qed

lemma cbc_encrypt_whole:
  "cbc_encrypt lib k iv (take (whole_blocks (length xs)) xs) = cbc_encrypt lib k iv xs"
proof -
  let ?n = "whole_blocks (length xs)"
  have n: "length (take ?n xs) mod 8 = 0" by simp
  have r: "length (drop ?n xs) < 8" by simp
  have "cbc_encrypt lib k iv (take ?n xs @ drop ?n xs) = cbc_encrypt lib k iv (take ?n xs)"
    by (simp only: cbc_encrypt_append [OF n] cbc_encrypt_short [OF r]) simp
  then show ?thesis by simp
qed

lemma EVP_EncryptUpdate_eq:
  "inp \<noteq> [] \<Longrightarrow> EVP_EncryptUpdate lib ctx inp =
     (1, fst (cbc_encrypt lib (ctx_key ctx) (ctx_iv ctx) (buf ctx @ inp)),
      ctx\<lparr>ctx_iv := snd (cbc_encrypt lib (ctx_key ctx) (ctx_iv ctx) (buf ctx @ inp)),
          buf := drop (whole_blocks (length (buf ctx @ inp))) (buf ctx @ inp)\<rparr>)"
  unfolding EVP_EncryptUpdate_def Let_def cbc_encrypt_whole by simp

lemma EVP_EncryptUpdate_Nil: "EVP_EncryptUpdate lib ctx [] = (1, [], ctx)"
  by (simp add: EVP_EncryptUpdate_def)

lemma EVP_EncryptUpdate_ret: "fst (EVP_EncryptUpdate lib ctx inp) = 1"
  by (simp add: EVP_EncryptUpdate_def Let_def)

lemma EVP_EncryptUpdate_buf:
  "length (buf ctx) < 8 \<Longrightarrow> length (buf (snd (snd (EVP_EncryptUpdate lib ctx inp)))) < 8"
  using drop_whole_lt [of "buf ctx @ inp"]
  by (simp add: EVP_EncryptUpdate_def Let_def del: length_append drop_append length_drop length_drop_whole)

lemma EVP_EncryptUpdate_append:
  "EVP_EncryptUpdate lib ctx (a @ b) =
     (1, fst (snd (EVP_EncryptUpdate lib ctx a)) @
           fst (snd (EVP_EncryptUpdate lib (snd (snd (EVP_EncryptUpdate lib ctx a))) b)),
      snd (snd (EVP_EncryptUpdate lib (snd (snd (EVP_EncryptUpdate lib ctx a))) b)))"
proof (cases "a = [] \<or> b = []")
  case True
  then show ?thesis
    by (auto simp: EVP_EncryptUpdate_Nil) (simp_all add: EVP_EncryptUpdate_def Let_def)
next
  case False
  then have a: "a \<noteq> []" and b: "b \<noteq> []" and ab: "a @ b \<noteq> []" by simp_all
  let ?d = "buf ctx @ a"
  let ?n = "whole_blocks (length ?d)"
  have n8: "length (take ?n ?d) mod 8 = 0" by (rule take_whole_mod)
  have split: "buf ctx @ a @ b = take ?n ?d @ (drop ?n ?d @ b)"
    by (metis append.assoc append_take_drop_id)
  have cbc: "cbc_encrypt lib (ctx_key ctx) (ctx_iv ctx) (buf ctx @ a @ b) =
      (fst (cbc_encrypt lib (ctx_key ctx) (ctx_iv ctx) ?d) @
         fst (cbc_encrypt lib (ctx_key ctx) (snd (cbc_encrypt lib (ctx_key ctx) (ctx_iv ctx) ?d)) (drop ?n ?d @ b)),
       snd (cbc_encrypt lib (ctx_key ctx) (snd (cbc_encrypt lib (ctx_key ctx) (ctx_iv ctx) ?d)) (drop ?n ?d @ b)))"
    unfolding split cbc_encrypt_append [OF n8] cbc_encrypt_whole ..
  have dr: "drop (whole_blocks (length (drop ?n ?d @ b))) (drop ?n ?d @ b) =
            drop (whole_blocks (length (buf ctx @ a @ b))) (buf ctx @ a @ b)"
    using drop_whole_append [of ?d b] by simp
  show ?thesis
    unfolding EVP_EncryptUpdate_eq [OF ab] EVP_EncryptUpdate_eq [OF a] EVP_EncryptUpdate_eq [OF b]
    using cbc dr by (simp del: length_append drop_append)
qed

lemma BUF_SIZE_pos: "0 < BUF_SIZE"
  by (simp add: BUF_SIZE_def)

lemma fread_cases:
  assumes "0 \<notin> set (short_reads inp)"
  obtains k where "0 < k"
    "fread BUF_SIZE inp = (take k (content inp), \<lparr>content = drop k (content inp), short_reads = tl (short_reads inp)\<rparr>)"
proof (cases "short_reads inp")
  case Nil
  then have "fread BUF_SIZE inp = (take BUF_SIZE (content inp), \<lparr>content = drop BUF_SIZE (content inp), short_reads = tl (short_reads inp)\<rparr>)"
    by (simp add: fread_def Let_def)
  then show ?thesis using that BUF_SIZE_pos by blast
next
  case (Cons a as)
  with assms have "0 < a" by auto
  then have "0 < min BUF_SIZE a" using BUF_SIZE_pos by simp
  moreover have "fread BUF_SIZE inp = (take (min BUF_SIZE a) (content inp), \<lparr>content = drop (min BUF_SIZE a) (content inp), short_reads = tl (short_reads inp)\<rparr>)"
    using Cons by (simp add: fread_def Let_def)
  ultimately show ?thesis using that by blast
qed

lemma fwrite_unlimited:
  "room out = None \<Longrightarrow> snd (fwrite outbuf out) = out\<lparr>written := written out @ outbuf\<rparr>"
  by (simp add: fwrite_def)

lemma fwrite_Nil: "snd (fwrite [] out) = out"
  by (cases "room out") (simp_all add: fwrite_def Let_def)

lemma fwrite_fwrite: "snd (fwrite b (snd (fwrite a out))) = snd (fwrite (a @ b) out)"
proof (cases "room out")
  case None
  then show ?thesis by (simp add: fwrite_def Let_def)
next
  case (Some r)
  show ?thesis
  proof (cases "r \<le> length a")
    case True
    then show ?thesis using Some by (simp add: fwrite_def min_def Let_def)
  next
    case False
    then show ?thesis using Some by (auto simp: fwrite_def min_def Let_def)
  qed
qed

lemma encrypt_loop_eq:
  assumes "0 \<notin> set (short_reads inp)"
  shows "encrypt_loop lib ctx inp out =
     (Returned, snd (snd (EVP_EncryptUpdate lib ctx (content inp))),
      snd (fwrite (fst (snd (EVP_EncryptUpdate lib ctx (content inp)))) out))"
  using assms
proof (induction lib ctx inp out rule: encrypt_loop.induct)
  case (1 lib ctx inp out)
  from "1.prems"(1) obtain k where k: "0 < k"
    and fr: "fread BUF_SIZE inp = (take k (content inp), \<lparr>content = drop k (content inp), short_reads = tl (short_reads inp)\<rparr>)"
    by (rule fread_cases)
  let ?inp' = "\<lparr>content = drop k (content inp), short_reads = tl (short_reads inp)\<rparr>"
  show ?case
  proof (cases "content inp = []")
    case True
    then show ?thesis
      by (subst encrypt_loop.simps) (simp add: fr EVP_EncryptUpdate_Nil fwrite_Nil)
  next
    case False
    let ?a = "take k (content inp)"
    from False k have a: "?a \<noteq> []" by simp
    let ?u = "EVP_EncryptUpdate lib ctx ?a"
    have u: "?u = (1, fst (snd ?u), snd (snd ?u))"
      by (metis EVP_EncryptUpdate_ret prod.collapse)
    have nz: "0 \<notin> set (short_reads ?inp')"
      using "1.prems"(1) by (cases "short_reads inp") auto
    have len: "0 < int (length ?a)" using a by simp
    have IH: "encrypt_loop lib (snd (snd ?u)) ?inp' (snd (fwrite (fst (snd ?u)) out)) =
       (Returned, snd (snd (EVP_EncryptUpdate lib (snd (snd ?u)) (content ?inp'))),
        snd (fwrite (fst (snd (EVP_EncryptUpdate lib (snd (snd ?u)) (content ?inp'))))
          (snd (fwrite (fst (snd ?u)) out))))"
      by (rule "1.IH" [OF fr [symmetric] len u [symmetric] refl _ nz]) simp
    have app: "EVP_EncryptUpdate lib ctx (content inp) =
       (1, fst (snd ?u) @ fst (snd (EVP_EncryptUpdate lib (snd (snd ?u)) (drop k (content inp)))),
        snd (snd (EVP_EncryptUpdate lib (snd (snd ?u)) (drop k (content inp)))))"
      using EVP_EncryptUpdate_append [of lib ctx ?a "drop k (content inp)"] by simp
    have step: "encrypt_loop lib ctx inp out = encrypt_loop lib (snd (snd ?u)) ?inp' (snd (fwrite (fst (snd ?u)) out))"
      apply (subst encrypt_loop.simps)
      apply (simp only: fr prod.case)
      apply (subst u)
      using len apply (simp only: prod.case if_True)
      apply simp
      done
    show ?thesis
      unfolding step IH app by (simp add: fwrite_fwrite)
  qed
qed

lemma generate_key_iv_digest:
  assumes "sha256 lib (take (strlen p) p) = Some d" "length d = 32"
  shows "generate_key_iv lib p key iv = Some (Inr (1, take 24 d @ drop 24 key, drop 24 d @ drop 8 iv))"
  using assms
  by (simp add: generate_key_iv_def EVP_BytesToKey_def EVP_des_ede3_cbc_def BytesToKey_loop.simps [of _ _ _ _ _ "[]"] Let_def)

lemma generate_key_iv_digest_fail:
  assumes "sha256 lib (take (strlen p) p) = None"
  shows "generate_key_iv lib p key iv = Some (Inl (Exited 1 ''Error occurred\<newline>''))"
  using assms
  by (simp add: generate_key_iv_def EVP_BytesToKey_def EVP_des_ede3_cbc_def BytesToKey_loop.simps [of _ _ _ _ _ "[]"] Let_def)

lemma encrypt_update_final:
  assumes "buf ctx = []"
  shows "fst (snd (EVP_EncryptUpdate lib ctx c)) @ snd (EVP_EncryptFinal_ex lib (snd (snd (EVP_EncryptUpdate lib ctx c)))) =
         fst (cbc_encrypt lib (ctx_key ctx) (ctx_iv ctx) (pkcs7_pad c))"
proof (cases "c = []")
  case True
  then show ?thesis
    using assms by (simp add: EVP_EncryptUpdate_Nil EVP_EncryptFinal_ex_def pkcs7_pad_def)
next
  case False
  let ?w = "whole_blocks (length c)"
  let ?pad = "replicate (8 - length c mod 8) (of_nat (8 - length c mod 8) :: byte)"
  have "pkcs7_pad c = take ?w c @ (drop ?w c @ ?pad)"
    by (simp add: pkcs7_pad_def)
  then have "cbc_encrypt lib (ctx_key ctx) (ctx_iv ctx) (pkcs7_pad c) =
     (fst (cbc_encrypt lib (ctx_key ctx) (ctx_iv ctx) c) @
        fst (cbc_encrypt lib (ctx_key ctx) (snd (cbc_encrypt lib (ctx_key ctx) (ctx_iv ctx) c)) (drop ?w c @ ?pad)),
      snd (cbc_encrypt lib (ctx_key ctx) (snd (cbc_encrypt lib (ctx_key ctx) (ctx_iv ctx) c)) (drop ?w c @ ?pad)))"
    by (simp only: cbc_encrypt_append [OF take_whole_mod] cbc_encrypt_whole)
  then show ?thesis
    using assms False by (simp add: EVP_EncryptUpdate_eq EVP_EncryptFinal_ex_def Let_def)
qed

lemma encrypt_file_eq:
  assumes dig: "sha256 lib (take (strlen password) password) = Some d" "length d = 32"
    and lib: "ctx_new_ok lib" "cipher_init_ok lib"
    and io: "0 \<notin> set (short_reads inp)"
  shows "encrypt_file lib (Some inp) (Some out) password key iv =
     Some (Returned, written (snd (fwrite
       (fst (cbc_encrypt lib (take 24 d) (drop 24 d) (pkcs7_pad (content inp)))) out)))"
proof -
  let ?ctx = "\<lparr>ctx_key = take 24 d, ctx_iv = drop 24 d, buf = [], final = [], final_used = False\<rparr>"
  have init: "EVP_EncryptInit_ex lib \<lparr>ctx_key = [], ctx_iv = [], buf = [], final = [], final_used = False\<rparr>
      EVP_des_ede3_cbc (take 24 d @ drop 24 key) (drop 24 d @ drop 8 iv) = (1, ?ctx)"
    using lib(2) dig(2) by (simp add: EVP_EncryptInit_ex_def EVP_CipherInit_def EVP_des_ede3_cbc_def)
  have fin: "EVP_EncryptFinal_ex lib c = (1, snd (EVP_EncryptFinal_ex lib c))" for c
    by (simp add: EVP_EncryptFinal_ex_def Let_def)
  have uf: "fst (snd (EVP_EncryptUpdate lib ?ctx (content inp))) @
        snd (EVP_EncryptFinal_ex lib (snd (snd (EVP_EncryptUpdate lib ?ctx (content inp))))) =
      fst (cbc_encrypt lib (take 24 d) (drop 24 d) (pkcs7_pad (content inp)))"
    using encrypt_update_final [of ?ctx lib "content inp"] by simp
  show ?thesis
    unfolding encrypt_file_def
    apply (simp only: prod.case option.case generate_key_iv_digest [OF dig] sum.case)
    apply (simp only: EVP_CIPHER_CTX_new_def lib if_True option.case init prod.case)
    apply (simp only: encrypt_loop_eq [OF io] prod.case outcome.case)
    apply (subst fin)
    apply (simp add: fwrite_fwrite uf)
    done
qed

lemma encrypt_file_unlimited:
  assumes dig: "sha256 lib (take (strlen password) password) = Some d" "length d = 32"
    and lib: "ctx_new_ok lib" "cipher_init_ok lib"
    and io: "0 \<notin> set (short_reads inp)" "room out = None"
  shows "encrypt_file lib (Some inp) (Some out) password key iv =
     Some (Returned, written out @ fst (cbc_encrypt lib (take 24 d) (drop 24 d) (pkcs7_pad (content inp))))"
  using io(2) by (simp add: encrypt_file_eq [OF dig lib io(1)] fwrite_unlimited)

lemma cbc_decrypt_short: "length inp < 8 \<Longrightarrow> cbc_decrypt lib k iv inp = ([], iv)"
  by (subst cbc_decrypt.simps) simp

lemma cbc_decrypt_step:
  "8 \<le> length inp \<Longrightarrow> cbc_decrypt lib k iv inp =
     (map2 (XOR) iv (des_ede3_decrypt lib k (take 8 inp)) @
        fst (cbc_decrypt lib k (take 8 inp) (drop 8 inp)),
      snd (cbc_decrypt lib k (take 8 inp) (drop 8 inp)))"
  by (subst cbc_decrypt.simps) simp

lemma drop8_mod: "8 \<le> length (inp :: 'a list) \<Longrightarrow> length inp mod 8 = 0 \<Longrightarrow> length (drop 8 inp) mod 8 = 0"
  by (simp add: mod_diff_eq [symmetric] le_mod_geq)

lemma cbc_decrypt_append:
  "length xs mod 8 = 0 \<Longrightarrow>
   cbc_decrypt lib k iv (xs @ ys) =
     (fst (cbc_decrypt lib k iv xs) @ fst (cbc_decrypt lib k (snd (cbc_decrypt lib k iv xs)) ys),
      snd (cbc_decrypt lib k (snd (cbc_decrypt lib k iv xs)) ys))"
proof (induction lib k iv xs rule: cbc_decrypt.induct)
  case (1 lib k iv inp)
  show ?case
  proof (cases "length inp < 8")
    case True
    with "1.prems" have "inp = []" by simp
    then show ?thesis by (simp add: cbc_decrypt_short)
  next
    case False
    then have len: "8 \<le> length inp" by simp
    have m: "length (drop 8 inp) mod 8 = 0"
      using "1.prems" len by (rule drop8_mod [rotated])
    have t: "take 8 (inp @ ys) = take 8 inp" "drop 8 (inp @ ys) = drop 8 inp @ ys"
      using len by simp_all
    have len': "8 \<le> length (inp @ ys)" using len by simp
    show ?thesis
      unfolding cbc_decrypt_step [OF len'] t
      using "1.IH" [OF False m] by (simp add: cbc_decrypt_step [OF len])
  qed
qed

lemma cbc_decrypt_whole:
  "cbc_decrypt lib k iv (take (whole_blocks (length xs)) xs) = cbc_decrypt lib k iv xs"
proof -
  let ?n = "whole_blocks (length xs)"
  have n: "length (take ?n xs) mod 8 = 0" by simp
  have r: "length (drop ?n xs) < 8" by simp
  have "cbc_decrypt lib k iv (take ?n xs @ drop ?n xs) = cbc_decrypt lib k iv (take ?n xs)"
    by (simp only: cbc_decrypt_append [OF n] cbc_decrypt_short [OF r]) simp
  then show ?thesis by simp
qed

lemma whole_blocks_sub8: "8 \<le> n \<Longrightarrow> whole_blocks (n - 8) + 8 = whole_blocks n"
  unfolding whole_blocks_def
  by (metis add.commute le_add_diff_inverse le_mod_geq mod_less_eq_dividend  Nat.diff_add_assoc2 Nat.diff_diff_right  le_add_diff_inverse2 mod_add_self2)

lemma length_cbc_encrypt:
  "block_to_block (des_ede3_encrypt lib) \<Longrightarrow> length iv = 8 \<Longrightarrow>
     length (fst (cbc_encrypt lib k iv xs)) = whole_blocks (length xs) \<and>
     length (snd (cbc_encrypt lib k iv xs)) = 8"
proof (induction lib k iv xs rule: cbc_encrypt.induct)
  case (1 lib k iv inp)
  show ?case
  proof (cases "length inp < 8")
    case True
    then show ?thesis using "1.prems" by (simp add: cbc_encrypt_short whole_blocks_def)
  next
    case False
    then have len: "8 \<le> length inp" by simp
    let ?c = "des_ede3_encrypt lib k (map2 (XOR) iv (take 8 inp))"
    have c: "length ?c = 8"
      using "1.prems" len by (simp add: block_to_block_def)
    from "1.IH" [OF False "1.prems"(1) c] whole_blocks_sub8 [OF len] c
    show ?thesis by (simp add: cbc_encrypt_step [OF len])
  qed
qed

lemma length_cbc_decrypt:
  "block_to_block (des_ede3_decrypt lib) \<Longrightarrow> length iv = 8 \<Longrightarrow>
     length (fst (cbc_decrypt lib k iv xs)) = whole_blocks (length xs) \<and>
     length (snd (cbc_decrypt lib k iv xs)) = 8"
proof (induction lib k iv xs rule: cbc_decrypt.induct)
  case (1 lib k iv inp)
  show ?case
  proof (cases "length inp < 8")
    case True
    then show ?thesis using "1.prems" by (simp add: cbc_decrypt_short whole_blocks_def)
  next
    case False
    then have len: "8 \<le> length inp" by simp
    have c: "length (take 8 inp) = 8" using len by simp
    have p: "length (map2 (XOR) iv (des_ede3_decrypt lib k (take 8 inp))) = 8"
      using "1.prems" len by (simp add: block_to_block_def)
    from "1.IH" [OF False "1.prems"(1) c] whole_blocks_sub8 [OF len] p
    show ?thesis by (simp add: cbc_decrypt_step [OF len])
  qed
qed

lemma map2_xor_cancel:
  "length (a :: byte list) = length b \<Longrightarrow> map2 (XOR) a (map2 (XOR) a b) = b"
  by (induction a b rule: list_induct2) (simp_all add: xor.assoc [symmetric])

lemma cbc_roundtrip:
  "block_to_block (des_ede3_encrypt lib) \<Longrightarrow>
   (\<forall>k b. length b = 8 \<longrightarrow> des_ede3_decrypt lib k (des_ede3_encrypt lib k b) = b) \<Longrightarrow>
   length iv = 8 \<Longrightarrow> length xs mod 8 = 0 \<Longrightarrow>
   fst (cbc_decrypt lib k iv (fst (cbc_encrypt lib k iv xs))) = xs"
proof (induction lib k iv xs rule: cbc_encrypt.induct)
  case (1 lib k iv inp)
  show ?case
  proof (cases "length inp < 8")
    case True
    with "1.prems" have "inp = []" by simp
    then show ?thesis by (simp add: cbc_encrypt_short cbc_decrypt_short)
  next
    case False
    then have len: "8 \<le> length inp" by simp
    let ?x = "map2 (XOR) iv (take 8 inp)"
    let ?c = "des_ede3_encrypt lib k ?x"
    let ?rest = "fst (cbc_encrypt lib k ?c (drop 8 inp))"
    have x: "length ?x = 8" using "1.prems" len by simp
    have c: "length ?c = 8"
      using "1.prems"(1) x by (simp add: block_to_block_def)
    have m: "length (drop 8 inp) mod 8 = 0"
      using len "1.prems"(4) by (rule drop8_mod)
    have IH: "fst (cbc_decrypt lib k ?c ?rest) = drop 8 inp"
      by (rule "1.IH" [OF False "1.prems"(1,2) c m])
    have dx: "des_ede3_decrypt lib k ?c = ?x" using "1.prems"(2) x by blast
    have xx: "map2 (XOR) iv ?x = take 8 inp"
      using "1.prems"(3) len by (intro map2_xor_cancel) simp
    have enc: "fst (cbc_encrypt lib k iv inp) = ?c @ ?rest"
      by (simp add: cbc_encrypt_step [OF len])
    have l8: "8 \<le> length (?c @ ?rest)" using c by simp
    have tk: "take 8 (?c @ ?rest) = ?c" "drop 8 (?c @ ?rest) = ?rest" using c by simp_all
    show ?thesis
      unfolding enc cbc_decrypt_step [OF l8] tk
      by (simp add: dx xx IH)
  qed
qed

lemma EVP_DecryptUpdate_ret: "fst (EVP_DecryptUpdate lib ctx inp) = 1"
  by (simp add: EVP_DecryptUpdate_def Let_def)

lemma dec_inv_step:
  assumes D: "block_to_block (des_ede3_decrypt lib)" and iv: "length iv0 = 8"
    and inv: "dec_inv lib k iv0 d ctx outp" and c: "c \<noteq> []"
  shows "dec_inv lib k iv0 (d @ c) (snd (snd (EVP_DecryptUpdate lib ctx c)))
           (outp @ fst (snd (EVP_DecryptUpdate lib ctx c)))"
proof -
  let ?w = "whole_blocks (length d)"
  let ?data = "drop ?w d @ c"
  let ?n = "whole_blocks (length ?data)"
  let ?pd = "fst (cbc_decrypt lib k iv0 d)"
  let ?ivd = "snd (cbc_decrypt lib k iv0 d)"
  let ?r = "cbc_decrypt lib k ?ivd ?data"
  let ?held = "if final_used ctx then final ctx else []"
  from inv have key: "ctx_key ctx = k" and civ: "ctx_iv ctx = ?ivd" and cbuf: "buf ctx = drop ?w d"
    by (simp_all add: dec_inv_def)
  have oh: "outp @ ?held = ?pd"
    using inv by (auto simp: dec_inv_def Let_def split: if_splits)
  have ivd: "length ?ivd = 8" using length_cbc_decrypt [OF D iv] by blast
  have lr: "length (fst ?r) = ?n" using length_cbc_decrypt [OF D ivd] by blast
  have "d @ c = take ?w d @ ?data" by simp
  then have all: "cbc_decrypt lib k iv0 (d @ c) = (?pd @ fst ?r, snd ?r)"
    by (simp only: cbc_decrypt_append [OF take_whole_mod] cbc_decrypt_whole)
  have dr: "drop ?n ?data = drop (whole_blocks (length (d @ c))) (d @ c)"
    by (rule drop_whole_append)
  have dr0: "drop ?n ?data = [] \<longleftrightarrow> length (d @ c) mod 8 = 0"
    unfolding dr by (metis length_0_conv length_drop_whole)
  have upd: "EVP_DecryptUpdate lib ctx c =
     (if drop ?n ?data = []
      then (1, ?held @ take (length (fst ?r) - 8) (fst ?r),
            ctx\<lparr>ctx_iv := snd ?r, buf := [], final := drop (length (fst ?r) - 8) (fst ?r), final_used := True\<rparr>)
      else (1, ?held @ fst ?r, ctx\<lparr>ctx_iv := snd ?r, buf := drop ?n ?data, final_used := False\<rparr>))"
    using c unfolding EVP_DecryptUpdate_def Let_def key civ cbuf cbc_decrypt_whole by simp
  show ?thesis
  proof (cases "length (d @ c) mod 8 = 0")
    case True
    then have z: "drop ?n ?data = []" using dr0 by simp
    have "length ?data mod 8 = 0"
      using True by (simp add: mod_add_left_eq)
    moreover have "0 < length ?data" using c by simp
    ultimately have "8 \<le> length ?data" by (metis mod_less not_le less_numeral_extra(3))
    moreover have "?n = length ?data" using \<open>length ?data mod 8 = 0\<close> by (rule whole_blocks_aligned)
    ultimately have l8: "8 \<le> length (fst ?r)" using lr by simp
    have o: "outp @ ?held @ take (length (fst ?r) - 8) (fst ?r) = take (length (?pd @ fst ?r) - 8) (?pd @ fst ?r)"
      using oh l8 by (simp add: append_assoc [symmetric] del: append_assoc)
    have f: "drop (length (fst ?r) - 8) (fst ?r) = drop (length (?pd @ fst ?r) - 8) (?pd @ fst ?r)"
      using l8 by simp
    have b0: "drop (whole_blocks (length (d @ c))) (d @ c) = []" using z dr by simp
    have ne: "d @ c \<noteq> []" using c by simp
    show ?thesis
      unfolding dec_inv_def all upd Let_def
      using True z o f b0 ne key by (simp del: length_append drop_append take_append)
  next
    case False
    then have z: "drop ?n ?data \<noteq> []" using dr0 by simp
    have o: "outp @ ?held @ fst ?r = ?pd @ fst ?r"
      using oh by (simp add: append_assoc [symmetric] del: append_assoc)
    show ?thesis
      unfolding dec_inv_def all upd Let_def
      using False z o dr key by (simp del: length_append drop_append take_append)
  qed
qed

lemma decrypt_loop_inv:
  assumes "block_to_block (des_ede3_decrypt lib)" "length iv0 = 8"
    and "dec_inv lib k iv0 d ctx outp"
    and "0 \<notin> set (short_reads inp)" "out = snd (fwrite outp out0)"
  shows "\<exists>ctx' outp'. decrypt_loop lib ctx inp out = (Returned, ctx', snd (fwrite outp' out0)) \<and>
           dec_inv lib k iv0 (d @ content inp) ctx' outp'"
  using assms
proof (induction lib ctx inp out arbitrary: d outp rule: decrypt_loop.induct)
  case (1 lib ctx inp out)
  from "1.prems"(4) obtain n where n: "0 < n"
    and fr: "fread BUF_SIZE inp = (take n (content inp), \<lparr>content = drop n (content inp), short_reads = tl (short_reads inp)\<rparr>)"
    by (rule fread_cases)
  let ?inp' = "\<lparr>content = drop n (content inp), short_reads = tl (short_reads inp)\<rparr>"
  show ?case
  proof (cases "content inp = []")
    case True
    have "decrypt_loop lib ctx inp out = (Returned, ctx, out)"
      using True by (subst decrypt_loop.simps) (simp add: fr)
    then show ?thesis using "1.prems"(3,5) True by auto
  next
    case False
    let ?a = "take n (content inp)"
    from False n have a: "?a \<noteq> []" by simp
    let ?u = "EVP_DecryptUpdate lib ctx ?a"
    let ?out' = "snd (fwrite (fst (snd ?u)) out)"
    have u: "?u = (1, fst (snd ?u), snd (snd ?u))"
      by (metis EVP_DecryptUpdate_ret prod.collapse)
    have nz: "0 \<notin> set (short_reads ?inp')"
      using "1.prems"(4) by (cases "short_reads inp") auto
    have wr: "?out' = snd (fwrite (outp @ fst (snd ?u)) out0)"
      using "1.prems"(5) by (simp add: fwrite_fwrite)
    have len: "0 < int (length ?a)" using a by simp
    have inv': "dec_inv lib k iv0 (d @ ?a) (snd (snd ?u)) (outp @ fst (snd ?u))"
      by (rule dec_inv_step [OF "1.prems"(1,2,3) a])
    have "\<exists>ctx' outp'. decrypt_loop lib (snd (snd ?u)) ?inp' ?out' = (Returned, ctx', snd (fwrite outp' out0)) \<and>
           dec_inv lib k iv0 ((d @ ?a) @ content ?inp') ctx' outp'"
      by (rule "1.IH" [OF fr [symmetric] len u [symmetric] refl _ "1.prems"(1,2) inv' nz wr]) simp
    then obtain ctx' outp' where
      L: "decrypt_loop lib (snd (snd ?u)) ?inp' ?out' = (Returned, ctx', snd (fwrite outp' out0))"
      and I: "dec_inv lib k iv0 ((d @ ?a) @ content ?inp') ctx' outp'" by blast
    have step: "decrypt_loop lib ctx inp out = decrypt_loop lib (snd (snd ?u)) ?inp' ?out'"
      apply (subst decrypt_loop.simps)
      apply (simp only: fr prod.case)
      apply (subst u)
      using len apply (simp only: prod.case if_True)
      apply simp
      done
    from I have "dec_inv lib k iv0 (d @ content inp) ctx' outp'" by simp
    with step L show ?thesis by auto
  qed
qed

lemma set_drop_rev_index:
  assumes "length f = 8" "n \<le> 8"
  shows "set (drop (8 - n) f) = (\<lambda>i. f ! (7 - i)) ` {0..<n}"
proof -
  have "set (drop (8 - n) f) = {f ! j | j. 8 - n \<le> j \<and> j < 8}"
  proof -
    have "set (drop (8 - n) f) = {drop (8 - n) f ! i | i. i < n}"
      using assms by (simp add: set_conv_nth)
    also have "\<dots> = {f ! (8 - n + i) | i. i < n}"
      using assms by simp
    also have "\<dots> = {f ! j | j. 8 - n \<le> j \<and> j < 8}"
    proof (intro set_eqI iffI; clarsimp)
      fix i assume "i < n"
      then show "\<exists>j. f ! (8 - n + i) = f ! j \<and> 8 - n \<le> j \<and> j < 8"
        using assms by (intro exI [of _ "8 - n + i"] conjI refl) linarith+
    next
      fix j assume "8 - n \<le> j" "j < 8"
      then show "\<exists>i. f ! j = f ! (8 - n + i) \<and> i < n"
        using assms by (intro exI [of _ "j - (8 - n)"]) auto
    qed
    finally show ?thesis .
  qed
  also have "\<dots> = (\<lambda>i. f ! (7 - i)) ` {0..<n}"
  proof (intro set_eqI iffI; clarsimp)
    fix j :: nat assume "8 - n \<le> j" "j < 8"
    then show "f ! j \<in> (\<lambda>i. f ! (7 - i)) ` {0..<n}"
      by (intro image_eqI [of _ _ "7 - j"]) auto
  next
    fix i assume "i < n"
    then show "\<exists>j. f ! (7 - i) = f ! j \<and> 8 - n \<le> j \<and> j < 8"
      using assms by (intro exI [of _ "7 - i"]) auto
  qed
  finally show ?thesis .
qed

lemma EVP_DecryptFinal_ex_eq:
  assumes "buf ctx = []" "final_used ctx" "length (final ctx) = 8"
  shows "EVP_DecryptFinal_ex ctx =
     (if valid_padding (final ctx) then (1, take (8 - unat (last (final ctx))) (final ctx)) else (0, []))"
proof -
  let ?f = "final ctx"
  let ?n = "unat (?f ! 7)"
  have "?f \<noteq> []" using assms(3) by auto
  then have l: "last ?f = ?f ! 7" using assms(3) by (simp add: last_conv_nth)
  show ?thesis
  proof (cases "?n = 0 \<or> 8 < ?n")
    case True
    then show ?thesis
      using assms by (auto simp: EVP_DecryptFinal_ex_def valid_padding_def l Let_def)
  next
    case False
    then have n: "?n \<le> 8" "1 \<le> ?n" by simp_all
    have "list_ex (\<lambda>i. ?f ! (7 - i) \<noteq> of_nat ?n) [0..<?n] \<longleftrightarrow>
          \<not> (\<forall>b \<in> set (drop (8 - ?n) ?f). b = of_nat ?n)"
      unfolding set_drop_rev_index [OF assms(3) n(1)] by (auto simp: list_ex_iff)
    then show ?thesis
      using assms False n unfolding EVP_DecryptFinal_ex_def valid_padding_def l Let_def
      by (simp del: of_nat_unat)
  qed
qed

lemma decrypt_tail:
  assumes D: "block_to_block (des_ede3_decrypt lib)" and iv: "length iv0 = 8"
    and inv: "dec_inv lib k iv0 c ctx outp"
  shows "(case EVP_DecryptFinal_ex ctx of (r, outbuf) \<Rightarrow> (r = 1, outp @ outbuf)) =
     (let p = fst (cbc_decrypt lib k iv0 c); blk = drop (length p - 8) p
      in if c \<noteq> [] \<and> length c mod 8 = 0
         then if valid_padding blk then (True, take (length p - unat (last blk)) p)
              else (False, take (length p - 8) p)
         else (False, p))"
proof (cases "c \<noteq> [] \<and> length c mod 8 = 0")
  case True
  let ?p = "fst (cbc_decrypt lib k iv0 c)"
  let ?blk = "drop (length ?p - 8) ?p"
  from inv True have fu: "final_used ctx" and fin: "final ctx = ?blk" and o: "outp = take (length ?p - 8) ?p"
    and b: "buf ctx = drop (whole_blocks (length c)) c"
    by (simp_all add: dec_inv_def Let_def)
  have lp: "length ?p = length c"
    using length_cbc_decrypt [OF D iv, of k c] True by (simp add: whole_blocks_aligned)
  have c8: "8 \<le> length c" using True by (metis length_greater_0_conv mod_less not_le less_numeral_extra(3))
  have b0: "buf ctx = []" using b True by (simp add: whole_blocks_aligned)
  have l8: "length (final ctx) = 8" using fin lp c8 by simp
  note F = EVP_DecryptFinal_ex_eq [OF b0 fu l8]
  show ?thesis
  proof (cases "valid_padding ?blk")
    case vp: True
    then have n: "unat (last ?blk) \<le> 8" by (simp add: valid_padding_def Let_def)
    have "take (length ?p - 8) ?p @ take (8 - unat (last ?blk)) ?blk =
          take ((length ?p - 8) + (8 - unat (last ?blk))) ?p"
      by (simp only: take_add)
    also have "(length ?p - 8) + (8 - unat (last ?blk)) = length ?p - unat (last ?blk)"
      using n lp c8 by simp
    finally show ?thesis using True vp F fin o by (simp add: Let_def)
  next
    case False
    then show ?thesis using True F fin o by (simp add: Let_def)
  qed
next
  case False
  from inv False have fu: "\<not> final_used ctx" and o: "outp = fst (cbc_decrypt lib k iv0 c)"
    by (simp_all add: dec_inv_def Let_def)
  have "EVP_DecryptFinal_ex ctx = (0, [])" using fu by (simp add: EVP_DecryptFinal_ex_def)
  then show ?thesis using False o by (auto simp: Let_def)
qed

lemma decrypt_file_eq:
  assumes dig: "sha256 lib (take (strlen password) password) = Some d" "length d = 32"
    and lib: "ctx_new_ok lib" "cipher_init_ok lib"
    and D: "block_to_block (des_ede3_decrypt lib)"
    and io: "0 \<notin> set (short_reads inp)"
  shows "decrypt_file lib (Some inp) (Some out) password key iv =
     (let c = content inp; p = fst (cbc_decrypt lib (take 24 d) (drop 24 d) c);
          blk = drop (length p - 8) p
      in if c \<noteq> [] \<and> length c mod 8 = 0
         then if valid_padding blk
              then Some (Returned, written (snd (fwrite (take (length p - unat (last blk)) p) out)))
              else Some (Exited 1 ''Error occurred\<newline>'', written (snd (fwrite (take (length p - 8) p) out)))
         else Some (Exited 1 ''Error occurred\<newline>'', written (snd (fwrite p out))))"
proof -
  let ?k = "take 24 d" and ?iv = "drop 24 d"
  let ?ctx = "\<lparr>ctx_key = ?k, ctx_iv = ?iv, buf = [], final = [], final_used = False\<rparr>"
  have init: "EVP_DecryptInit_ex lib \<lparr>ctx_key = [], ctx_iv = [], buf = [], final = [], final_used = False\<rparr>
      EVP_des_ede3_cbc (take 24 d @ drop 24 key) (drop 24 d @ drop 8 iv) = (1, ?ctx)"
    using lib(2) dig(2) by (simp add: EVP_DecryptInit_ex_def EVP_CipherInit_def EVP_des_ede3_cbc_def)
  have iv8: "length ?iv = 8" using dig(2) by simp
  have inv0: "dec_inv lib ?k ?iv [] ?ctx []"
    by (simp add: dec_inv_def cbc_decrypt_short whole_blocks_def)
  have w: "out = snd (fwrite [] out)" by (simp add: fwrite_Nil)
  from decrypt_loop_inv [OF D iv8 inv0 io w]
  obtain ctx' outp' where L: "decrypt_loop lib ?ctx inp out = (Returned, ctx', snd (fwrite outp' out))"
    and I: "dec_inv lib ?k ?iv (content inp) ctx' outp'" by auto
  note T = decrypt_tail [OF D iv8 I]
  obtain r outbuf where F: "EVP_DecryptFinal_ex ctx' = (r, outbuf)" by (cases "EVP_DecryptFinal_ex ctx'")
  have fl: "decrypt_file lib (Some inp) (Some out) password key iv =
      (if r \<noteq> 1 then Some (Exited 1 ''Error occurred\<newline>'', written (snd (fwrite outp' out)))
       else Some (Returned, written (snd (fwrite (outp' @ outbuf) out))))"
    unfolding decrypt_file_def
    apply (simp only: prod.case option.case generate_key_iv_digest [OF dig] sum.case)
    apply (simp only: EVP_CIPHER_CTX_new_def lib if_True option.case init prod.case)
    apply (simp only: L prod.case outcome.case F)
    apply (simp add: fwrite_fwrite)
    done
  have fail: "r \<noteq> 1 \<Longrightarrow> outbuf = []"
    using F by (auto simp: EVP_DecryptFinal_ex_def Let_def split: if_splits)
  show ?thesis
    unfolding fl using T fail unfolding F by (auto simp: Let_def split: if_splits)
qed

lemma take_length_takeWhile: "take (length (takeWhile P xs)) xs = takeWhile P xs"
  by (induction xs) simp_all

lemma takeWhile_nul: "0 \<notin> set s \<Longrightarrow> takeWhile (\<lambda>c. c \<noteq> 0) (s @ (0::byte) # r) = s"
  by (induction s) simp_all

lemma strlen_nul: "0 \<notin> set s \<Longrightarrow> take (strlen (s @ 0 # r)) (s @ 0 # r) = s"
  unfolding strlen_def take_length_takeWhile by (rule takeWhile_nul)

lemma strlen_no_nul: "0 \<notin> set s \<Longrightarrow> take (strlen s) s = s"
  unfolding strlen_def take_length_takeWhile by (induction s) simp_all

lemma generate_key_iv_cstring:
  "take (strlen p) p = take (strlen q) q \<Longrightarrow> generate_key_iv lib p key iv = generate_key_iv lib q key iv"
  by (simp add: generate_key_iv_def EVP_BytesToKey_def)


lemma BytesToKey_loop_lengths:
  assumes "BytesToKey_loop md salt data count rv md_buf nkey niv key iv = Some y"
  shows "fst y \<noteq> 0 \<longrightarrow> length (fst (snd y)) = length key + nkey \<and> length (snd (snd y)) = length iv + niv"
  by (rule BytesToKey_loop.raw_induct [where P = "\<lambda>md salt data count rv md_buf nkey niv key iv y.
        fst y \<noteq> 0 \<longrightarrow> length (fst (snd y)) = length key + nkey \<and> length (snd (snd y)) = length iv + niv",
        OF _ assms])
     (auto simp: Let_def min_def split: option.splits if_splits)

lemma BytesToKey_loop_fail:
  assumes "BytesToKey_loop md salt data count rv md_buf nkey niv key iv = Some y"
  shows "fst y = 0 \<or> fst y = int rv"
  by (rule BytesToKey_loop.raw_induct [where P = "\<lambda>md salt data count rv md_buf nkey niv key iv y.
        fst y = 0 \<or> fst y = int rv", OF _ assms])
     (auto simp: Let_def split: option.splits if_splits)

lemma spec_stream_done: "want \<le> length produced \<Longrightarrow> spec_digest_stream H pw prev produced want = Some produced"
  by (subst spec_digest_stream.simps) simp

lemma spec_stream_fail:
  "\<not> want \<le> length produced \<Longrightarrow> H (prev @ pw) = None \<Longrightarrow> spec_digest_stream H pw prev produced want = None"
  by (subst spec_digest_stream.simps) simp

lemma spec_stream_step:
  "\<not> want \<le> length produced \<Longrightarrow> H (prev @ pw) = Some d \<Longrightarrow> d \<noteq> [] \<Longrightarrow>
   spec_digest_stream H pw prev produced want = spec_digest_stream H pw d (produced @ d) want"
  by (subst spec_digest_stream.simps) simp

lemma loop_fail:
  "md (prev @ pw) = None \<Longrightarrow> BytesToKey_loop md None pw (Suc 0) rv prev nkey niv key iv = Some (0, key, iv)"
  by (subst BytesToKey_loop.simps) simp

lemma loop_step:
  "md (prev @ pw) = Some d \<Longrightarrow>
   BytesToKey_loop md None pw (Suc 0) rv prev nkey niv key iv =
     (if nkey \<le> length d \<and> niv \<le> length d - nkey
      then Some (int rv, key @ take nkey d, iv @ take niv (drop nkey d))
      else BytesToKey_loop md None pw (Suc 0) rv d (nkey - min nkey (length d))
             (niv - min niv (length d - min nkey (length d)))
             (key @ take (min nkey (length d)) d)
             (iv @ take (min niv (length d - min nkey (length d))) (drop (min nkey (length d)) d)))"
  by (subst BytesToKey_loop.simps) (auto simp: Let_def min_def)

lemma loop_refines_spec:
  "(\<forall>m d. md m = Some d \<longrightarrow> d \<noteq> []) \<Longrightarrow> want = 32 \<Longrightarrow> length key + nkey = 24 \<Longrightarrow> length iv + niv = 8 \<Longrightarrow> (0 < nkey \<longrightarrow> iv = []) \<Longrightarrow>
     0 < nkey + niv \<Longrightarrow> produced = key @ iv \<Longrightarrow>
     \<exists>y. BytesToKey_loop md None pw (Suc 0) 24 prev nkey niv key iv = Some y \<and>
         (if fst y = 0 then None else Some (snd y)) =
           map_option (\<lambda>s. (take 24 s, take 8 (drop 24 s))) (spec_digest_stream md pw prev produced want)"
proof (induction md pw prev produced want arbitrary: nkey niv key iv rule: spec_digest_stream.induct)
  case (1 H pw prev produced want)
  have lp: "length produced + nkey + niv = 32" using "1.prems" by simp
  have notdone: "\<not> want \<le> length produced" using "1.prems"(2,6) lp by linarith
  show ?case
  proof (cases "H (prev @ pw)")
    case None
    then show ?thesis
      using notdone by (simp add: loop_fail spec_stream_fail)
  next
    case (Some d)
    then have d: "d \<noteq> []" using "1.prems"(1) by blast
    note st = spec_stream_step [of want produced H prev pw d, OF notdone Some d]
    show ?thesis
    proof (cases "nkey \<le> length d \<and> niv \<le> length d - nkey")
      case True
      have dn: "want \<le> length (produced @ d)" using True lp "1.prems"(2) by (simp only: length_append) linarith
      have a: "24 - length key = nkey" "8 - length iv = niv" "length key \<le> 24" "length iv \<le> 8"
        using "1.prems" by simp_all
      have pr: "produced = key @ iv" "0 < nkey \<longrightarrow> iv = []" using "1.prems" by simp_all
      have k: "take 24 (produced @ d) = key @ take nkey d"
        using pr a by (cases "nkey = 0") auto
      have v: "take 8 (drop 24 (produced @ d)) = iv @ take niv (drop nkey d)"
        using pr a by (cases "nkey = 0") auto
      show ?thesis
        using True k v by (simp add: loop_step [of H prev pw d, OF Some] st spec_stream_done [OF dn])
    next
      case False
      let ?kn = "min nkey (length d)"
      let ?vn = "min niv (length d - ?kn)"
      let ?key = "key @ take ?kn d"
      let ?iv = "iv @ take ?vn (drop ?kn d)"
      have p: "produced @ d = ?key @ ?iv"
        using False "1.prems" by (cases "nkey = 0") (auto simp: min_def)
      have i1: "length ?key + (nkey - ?kn) = 24" using "1.prems" by (simp add: min_def)
      have i2: "length ?iv + (niv - ?vn) = 8" using "1.prems" by (simp add: min_def)
      have i3: "0 < nkey - ?kn \<longrightarrow> ?iv = []" using "1.prems" by (auto simp: min_def)
      have i4: "0 < (nkey - ?kn) + (niv - ?vn)" using False by (auto simp: min_def)
      have ls: "BytesToKey_loop H None pw (Suc 0) 24 prev nkey niv key iv =
          BytesToKey_loop H None pw (Suc 0) 24 d (nkey - ?kn) (niv - ?vn) ?key ?iv"
        by (subst loop_step [of H prev pw d, OF Some]) (simp only: False if_False)
      from "1.IH" [OF notdone Some d "1.prems"(1,2) i1 i2 i3 i4 p]
      show ?thesis
        unfolding ls st .
    qed
  qed
qed

lemma generate_key_iv_spec:
  assumes ne: "\<forall>m d. sha256 lib m = Some d \<longrightarrow> d \<noteq> []"
  shows "generate_key_iv lib password key iv =
     Some (case spec_derive (sha256 lib) (take (strlen password) password) of
             None \<Rightarrow> Inl (Exited 1 ''Error occurred\<newline>'')
           | Some (k, v) \<Rightarrow> Inr (1, k @ drop 24 key, v @ drop 8 iv))"
proof -
  let ?pw = "take (strlen password) password"
  from loop_refines_spec [OF ne, of 32 "[]" 24 "[]" 8 "[]" ?pw "[]"]
  obtain y where y: "BytesToKey_loop (sha256 lib) None ?pw (Suc 0) 24 [] 24 8 [] [] = Some y"
    and m: "(if fst y = 0 then None else Some (snd y)) =
           map_option (\<lambda>s. (take 24 s, take 8 (drop 24 s))) (spec_digest_stream (sha256 lib) ?pw [] [] 32)"
    by auto
  from BytesToKey_loop_lengths [OF y]
  have l: "fst y \<noteq> 0 \<Longrightarrow> length (fst (snd y)) = 24 \<and> length (snd (snd y)) = 8" by simp
  show ?thesis
  proof (cases "fst y = 0")
    case True
    with m have "spec_derive (sha256 lib) ?pw = None"
      by (simp add: spec_derive_def split: option.splits)
    then show ?thesis
      using y True
      by (cases y) (simp add: generate_key_iv_def EVP_BytesToKey_def EVP_des_ede3_cbc_def)
  next
    case False
    with m have "spec_derive (sha256 lib) ?pw = Some (snd y)"
      by (auto simp: spec_derive_def split: option.splits)
    then show ?thesis
      using y False l
      by (cases y) (simp add: generate_key_iv_def EVP_BytesToKey_def EVP_des_ede3_cbc_def)
  qed
qed

section \<open>Properties of the key derivation\<close>



text \<open>
  Claim C6. Two calls of the derivation on the same password yield the same key and the
  same IV, whatever the two buffers held before each call: nothing but the password
  (and the digest function) enters the result.
\<close>

theorem derivation_deterministic:
  "key_material (generate_key_iv lib p key1 iv1) = key_material (generate_key_iv lib p key2 iv2)"
proof (cases "BytesToKey_loop (sha256 lib) None (take (strlen p) p) 1 24 [] 24 8 [] []")
  case None
  then show ?thesis
    by (simp add: key_material_def generate_key_iv_def EVP_BytesToKey_def EVP_des_ede3_cbc_def)
next
  case (Some y)
  obtain r kw vw where y: "y = (r, kw, vw)" by (cases y)
  from BytesToKey_loop_lengths [OF Some] y
  have "r \<noteq> 0 \<Longrightarrow> length kw = 24 \<and> length vw = 8" by simp
  then show ?thesis
    using Some y
    by (auto simp: key_material_def generate_key_iv_def EVP_BytesToKey_def EVP_des_ede3_cbc_def)
qed

text \<open>
  Claim C10. The password is read as a C string: two passwords that agree up to and
  including their first NUL byte give the same result, and a password with a NUL inside
  gives the result of the bytes in front of that NUL.
\<close>

theorem password_cut_at_first_nul:
  "0 \<notin> set s \<Longrightarrow>
     generate_key_iv lib (s @ 0 # r) key iv = generate_key_iv lib (s @ 0 # r') key iv \<and>
     generate_key_iv lib (s @ 0 # r) key iv = generate_key_iv lib s key iv"
proof -
  assume s: "0 \<notin> set s"
  show ?thesis
    by (intro conjI generate_key_iv_cstring)
       (simp_all only: strlen_nul [OF s] strlen_no_nul [OF s])
qed

theorem password_cut_at_first_nul_witness:
  "(0::byte) \<notin> set [104, 105] \<and>
   generate_key_iv toy_lib ([104, 105] @ 0 # [1, 2, 3]) [] [] = generate_key_iv toy_lib ([104, 105] @ 0 # [9]) [] [] \<and>
   generate_key_iv toy_lib ([104, 105] @ 0 # [1, 2, 3]) [] [] = generate_key_iv toy_lib [104, 105] [] []"
proof -
  have h: "(0::byte) \<notin> set [104, 105]" by simp
  show ?thesis
    using h password_cut_at_first_nul [OF h, of toy_lib "[1, 2, 3]" "[]" "[]" "[9]"] by blast
qed

lemma length_pkcs7_pad: "length (pkcs7_pad b) = whole_blocks (length b) + 8"
proof -
  have "length b mod 8 \<le> length b" by simp
  moreover have "length b mod 8 < 8" by simp
  ultimately show ?thesis unfolding pkcs7_pad_def whole_blocks_def by simp
qed

lemma pkcs7_pad_mod: "length (pkcs7_pad b) mod 8 = 0"
  by (simp add: length_pkcs7_pad)

lemma pad_count: "unat (of_nat (8 - n mod 8) :: byte) = 8 - n mod 8"
proof -
  have "8 - n mod 8 < 256" by simp
  then show ?thesis by (simp add: unat_of_nat del: of_nat_diff)
qed

lemma pkcs7_pad_unpad:
  "valid_padding (drop (length (pkcs7_pad b) - 8) (pkcs7_pad b)) \<and>
   take (length (pkcs7_pad b) - unat (last (drop (length (pkcs7_pad b) - 8) (pkcs7_pad b)))) (pkcs7_pad b) = b"
proof -
  let ?n = "8 - length b mod 8"
  let ?x = "of_nat ?n :: byte"
  let ?p = "pkcs7_pad b"
  let ?blk = "drop (length ?p - 8) ?p"
  have n: "1 \<le> ?n" "?n \<le> 8" by simp_all
  have lp: "length ?p = length b + ?n" by (simp add: pkcs7_pad_def)
  have lb: "length ?blk = 8" using lp by simp
  have "?blk \<noteq> []" using lb by auto
  then have "last ?blk = last ?p" by (simp add: last_drop lp)
  also have "\<dots> = ?x" using n by (simp add: pkcs7_pad_def del: of_nat_diff)
  finally have lst: "last ?blk = ?x" .
  have un: "unat (last ?blk) = ?n" unfolding lst by (rule pad_count)
  have "drop (length ?blk - ?n) ?blk = drop (length ?p - ?n) ?p"
    using lp lb n by simp
  also have "\<dots> = replicate ?n ?x" using lp by (simp add: pkcs7_pad_def del: of_nat_diff)
  finally have tail: "drop (length ?blk - ?n) ?blk = replicate ?n ?x" .
  have v: "valid_padding ?blk"
    unfolding valid_padding_def Let_def un tail using n by (simp del: of_nat_diff)
  have "take (length ?p - ?n) ?p = b" using lp by (simp add: pkcs7_pad_def del: of_nat_diff)
  with v un show ?thesis by simp
qed

lemma toy_lib_simps:
  "sha256 toy_lib m = Some (take 32 (m @ replicate 32 0))"
  "des_ede3_encrypt toy_lib k b = map (\<lambda>x. x + 1) b"
  "des_ede3_decrypt toy_lib k b = map (\<lambda>x. x - 1) b"
  "ctx_new_ok toy_lib" "cipher_init_ok toy_lib"
  by (simp_all add: toy_lib_def)

lemma toy_lib_blocks:
  "block_to_block (des_ede3_encrypt toy_lib)" "block_to_block (des_ede3_decrypt toy_lib)"
  "\<forall>k b. length b = 8 \<longrightarrow> des_ede3_decrypt toy_lib k (des_ede3_encrypt toy_lib k b) = b"
  by (simp_all add: block_to_block_def toy_lib_simps comp_def)

lemma failing_libs:
  "sha256 alloc_fails = sha256 toy_lib" "\<not> ctx_new_ok alloc_fails"
  "sha256 init_fails = sha256 toy_lib" "ctx_new_ok init_fails" "\<not> cipher_init_ok init_fails"
  "des_ede3_decrypt init_fails = des_ede3_decrypt toy_lib"
  by (simp_all add: alloc_fails_def init_fails_def toy_lib_def)


lemma toy_digest_hi:
  "sha256 toy_lib (take (strlen [104, 105]) [104, 105]) = Some ([104, 105] @ replicate 30 0)"
  "length ([104, 105 :: byte] @ replicate 30 0) = 32"
  by (simp_all add: toy_lib_simps strlen_def)

lemma cbc_encrypt_block:
  "length inp = 8 \<Longrightarrow> cbc_encrypt lib k iv inp = (des_ede3_encrypt lib k (map2 (XOR) iv inp), des_ede3_encrypt lib k (map2 (XOR) iv inp))"
  by (simp add: cbc_encrypt_step cbc_encrypt_short)

lemma replicate_num: "replicate (numeral k) x = x # replicate (pred_numeral k) x"
  by (simp only: numeral_eq_Suc replicate_Suc)

lemma pad1: "pkcs7_pad [1] = [1, 7, 7, 7, 7, 7, 7, 7]"
  by (simp add: pkcs7_pad_def replicate_num)

lemma key1: "take 24 ([104, 105] @ replicate 30 (0::byte)) = [104, 105] @ replicate 22 0"
  "drop 24 ([104, 105] @ replicate 30 (0::byte)) = replicate 8 0"
  by simp_all



lemma length_ciphertext:
  assumes "block_to_block (des_ede3_encrypt lib)" "length iv = 8"
  shows "length (fst (cbc_encrypt lib k iv (pkcs7_pad b))) = whole_blocks (length b) + 8"
  using length_cbc_encrypt [OF assms, of k "pkcs7_pad b"] pkcs7_pad_mod [of b]
  by (simp add: whole_blocks_aligned length_pkcs7_pad)

section \<open>Properties of encryption and decryption\<close>

text \<open>
  Claim C1. Decrypting with a password what \<open>encrypt_file\<close> wrote for the bytes \<open>b\<close> under
  the same password gives back exactly \<open>b\<close>: both calls return, and the second writes
  \<open>b\<close>. The block decryption is assumed to invert the block encryption, the digest to
  deliver 32 bytes for the password, allocation and initialisation to succeed, and no
  read to fail; the reads may be cut into pieces in any way, and the buffers may hold
  anything before either call.
\<close>

theorem encrypt_decrypt_roundtrip:
  assumes dig: "sha256 lib (take (strlen password) password) = Some d" "length d = 32"
    and lib: "ctx_new_ok lib" "cipher_init_ok lib"
    and E: "block_to_block (des_ede3_encrypt lib)"
    and D: "block_to_block (des_ede3_decrypt lib)"
    and inv: "\<forall>k x. length x = 8 \<longrightarrow> des_ede3_decrypt lib k (des_ede3_encrypt lib k x) = x"
    and io: "0 \<notin> set sr" "0 \<notin> set sr'"
  shows "\<exists>c. encrypt_file lib (Some \<lparr>content = b, short_reads = sr\<rparr>)
               (Some \<lparr>written = [], room = None\<rparr>) password key iv = Some (Returned, c) \<and>
             decrypt_file lib (Some \<lparr>content = c, short_reads = sr'\<rparr>)
               (Some \<lparr>written = [], room = None\<rparr>) password key' iv' = Some (Returned, b)"
proof -
  let ?k = "take 24 d" and ?iv = "drop 24 d"
  let ?c = "fst (cbc_encrypt lib ?k ?iv (pkcs7_pad b))"
  have iv8: "length ?iv = 8" using dig(2) by simp
  have enc: "encrypt_file lib (Some \<lparr>content = b, short_reads = sr\<rparr>)
               (Some \<lparr>written = [], room = None\<rparr>) password key iv = Some (Returned, ?c)"
    using encrypt_file_unlimited [OF dig lib, of "\<lparr>content = b, short_reads = sr\<rparr>" "\<lparr>written = [], room = None\<rparr>" key iv] io(1)
    by simp
  have lc: "length ?c = whole_blocks (length b) + 8" by (rule length_ciphertext [OF E iv8])
  then have c0: "?c \<noteq> []" by auto
  have cm: "length ?c mod 8 = 0" unfolding lc by simp
  have p: "fst (cbc_decrypt lib ?k ?iv ?c) = pkcs7_pad b"
    by (rule cbc_roundtrip [OF E inv iv8 pkcs7_pad_mod])
  have dec: "decrypt_file lib (Some \<lparr>content = ?c, short_reads = sr'\<rparr>)
               (Some \<lparr>written = [], room = None\<rparr>) password key' iv' = Some (Returned, b)"
    using decrypt_file_eq [OF dig lib D, of "\<lparr>content = ?c, short_reads = sr'\<rparr>" "\<lparr>written = [], room = None\<rparr>" key' iv'] io(2)
      c0 cm pkcs7_pad_unpad [of b]
    by (simp add: Let_def p fwrite_unlimited)
  from enc dec show ?thesis by blast
qed

lemma pad3: "pkcs7_pad [1, 2, 3] = [1, 2, 3, 5, 5, 5, 5, 5]"
  by (simp add: pkcs7_pad_def replicate_num)

lemma enc3: "encrypt_file toy_lib (Some \<lparr>content = [1, 2, 3], short_reads = [2, 5]\<rparr>)
       (Some \<lparr>written = [], room = None\<rparr>) [104, 105] [] [] = Some (Returned, [2, 3, 4, 6, 6, 6, 6, 6])"
  by (simp add: encrypt_file_unlimited [OF toy_digest_hi toy_lib_simps(4,5)] pad3 key1
      cbc_encrypt_block toy_lib_simps replicate_num)

theorem encrypt_decrypt_roundtrip_witness:
  "encrypt_file toy_lib (Some \<lparr>content = [1, 2, 3], short_reads = [2, 5]\<rparr>)
       (Some \<lparr>written = [], room = None\<rparr>) [104, 105] [] [] = Some (Returned, [2, 3, 4, 6, 6, 6, 6, 6]) \<and>
   decrypt_file toy_lib (Some \<lparr>content = [2, 3, 4, 6, 6, 6, 6, 6], short_reads = [4]\<rparr>)
       (Some \<lparr>written = [], room = None\<rparr>) [104, 105] [9, 9] [7] = Some (Returned, [1, 2, 3])"
proof -
  have io: "0 \<notin> set [2, 5 :: nat]" "0 \<notin> set [4 :: nat]" by simp_all
  from encrypt_decrypt_roundtrip [OF toy_digest_hi toy_lib_simps(4,5) toy_lib_blocks io,
      of "[1, 2, 3]" "[]" "[]" "[9, 9]" "[7]"]
  show ?thesis by (simp add: enc3)
qed

text \<open>
  One byte of input gives 8 bytes of output, while the input length rounded up to the
  next multiple of 8, plus one block, is 16.
\<close>

theorem encrypt_length_counterexample:
  "encrypt_file toy_lib (Some \<lparr>content = [1], short_reads = []\<rparr>)
       (Some \<lparr>written = [], room = None\<rparr>) [104, 105] [] [] = Some (Returned, [2, 8, 8, 8, 8, 8, 8, 8]) \<and>
   length [2, 8, 8, 8, 8, 8, 8, 8 :: byte] \<noteq> round_up_blocks (length [1 :: byte]) + 8"
  by (simp add: encrypt_file_unlimited [OF toy_digest_hi toy_lib_simps(4,5)] pad1 key1
      cbc_encrypt_block toy_lib_simps replicate_num round_up_blocks_def)

text \<open>
  Claim C3, as amended. \<open>encrypt_file\<close> returns and has written the input length
  rounded down to a multiple of the block size, plus exactly one block: for \<open>n\<close> bytes of
  input, \<open>n - n mod 8 + 8\<close> bytes of output. (Rounding up first gives one block too many
  whenever \<open>n\<close> is not a multiple of 8.)
\<close>

theorem encrypt_length:
  assumes dig: "sha256 lib (take (strlen password) password) = Some d" "length d = 32"
    and lib: "ctx_new_ok lib" "cipher_init_ok lib"
    and E: "block_to_block (des_ede3_encrypt lib)"
    and io: "0 \<notin> set (short_reads inp)" "room out = None"
  shows "\<exists>c. encrypt_file lib (Some inp) (Some out) password key iv = Some (Returned, written out @ c) \<and>
             length c = length (content inp) - length (content inp) mod 8 + 8"
proof -
  have iv8: "length (drop 24 d) = 8" using dig(2) by simp
  show ?thesis
    using encrypt_file_unlimited [OF dig lib io, of key iv]
      length_ciphertext [OF E iv8, of "take 24 d" "content inp"]
    by (simp add: whole_blocks_def)
qed

theorem encrypt_length_witness:
  "encrypt_file toy_lib (Some \<lparr>content = [1, 2, 3], short_reads = [2, 5]\<rparr>)
       (Some \<lparr>written = [], room = None\<rparr>) [104, 105] [] [] = Some (Returned, [2, 3, 4, 6, 6, 6, 6, 6]) \<and>
   length [2, 3, 4, 6, 6, 6, 6, 6 :: byte] = length [1, 2, 3 :: byte] - length [1, 2, 3 :: byte] mod 8 + 8"
proof -
  have io: "0 \<notin> set (short_reads \<lparr>content = [1, 2, 3 :: byte], short_reads = [2, 5]\<rparr>)"
    "room \<lparr>written = ([] :: bytes), room = None\<rparr> = None" by simp_all
  from encrypt_length [OF toy_digest_hi toy_lib_simps(4,5) toy_lib_blocks(1) io, of "[]" "[]"]
  show ?thesis by (simp add: enc3)
qed

text \<open>
  Claim C4. An empty input gives exactly one block of output, the encryption of the
  block of eight bytes 8 (chained with the IV), and an input whose length is a multiple
  of the block size gives that length plus one block.
\<close>

theorem padding_only_and_aligned_inputs:
  assumes dig: "sha256 lib (take (strlen password) password) = Some d" "length d = 32"
    and lib: "ctx_new_ok lib" "cipher_init_ok lib"
    and E: "block_to_block (des_ede3_encrypt lib)"
    and io: "0 \<notin> set sr"
  shows "encrypt_file lib (Some \<lparr>content = [], short_reads = sr\<rparr>) (Some \<lparr>written = [], room = None\<rparr>)
           password key iv =
           Some (Returned, des_ede3_encrypt lib (take 24 d) (map2 (XOR) (drop 24 d) (replicate 8 8))) \<and>
         length (des_ede3_encrypt lib (take 24 d) (map2 (XOR) (drop 24 d) (replicate 8 8))) = 8 \<and>
         (length b mod 8 = 0 \<longrightarrow>
            (\<exists>c. encrypt_file lib (Some \<lparr>content = b, short_reads = sr\<rparr>) (Some \<lparr>written = [], room = None\<rparr>)
                   password key iv = Some (Returned, c) \<and> length c = length b + 8))"
proof -
  have iv8: "length (drop 24 d) = 8" using dig(2) by simp
  have p0: "pkcs7_pad [] = replicate 8 8" by (simp add: pkcs7_pad_def)
  have e: "encrypt_file lib (Some \<lparr>content = x, short_reads = sr\<rparr>) (Some \<lparr>written = [], room = None\<rparr>)
           password key iv = Some (Returned, fst (cbc_encrypt lib (take 24 d) (drop 24 d) (pkcs7_pad x)))" for x
    using encrypt_file_unlimited [OF dig lib, of "\<lparr>content = x, short_reads = sr\<rparr>" "\<lparr>written = [], room = None\<rparr>" key iv] io
    by simp
  have 1: "fst (cbc_encrypt lib (take 24 d) (drop 24 d) (pkcs7_pad [])) =
        des_ede3_encrypt lib (take 24 d) (map2 (XOR) (drop 24 d) (replicate 8 8))"
    unfolding p0 by (simp add: cbc_encrypt_block)
  have 2: "length (des_ede3_encrypt lib (take 24 d) (map2 (XOR) (drop 24 d) (replicate 8 8))) = 8"
    using E iv8 by (simp add: block_to_block_def)
  have 3: "length b mod 8 = 0 \<Longrightarrow>
      length (fst (cbc_encrypt lib (take 24 d) (drop 24 d) (pkcs7_pad b))) = length b + 8"
    using length_ciphertext [OF E iv8, of "take 24 d" b] by (simp add: whole_blocks_aligned)
  show ?thesis using e [of "[]"] e [of b] 1 2 3 by simp
qed

lemma cbc_encrypt_two_blocks:
  "length inp = 16 \<Longrightarrow> length (des_ede3_encrypt lib k (map2 (XOR) iv (take 8 inp))) = 8 \<Longrightarrow>
   fst (cbc_encrypt lib k iv inp) =
     des_ede3_encrypt lib k (map2 (XOR) iv (take 8 inp)) @
     des_ede3_encrypt lib k (map2 (XOR) (des_ede3_encrypt lib k (map2 (XOR) iv (take 8 inp))) (drop 8 inp))"
  by (simp add: cbc_encrypt_step [of inp] cbc_encrypt_block)

lemma pad8: "pkcs7_pad [1, 2, 3, 4, 5, 6, 7, 8] = [1, 2, 3, 4, 5, 6, 7, 8, 8, 8, 8, 8, 8, 8, 8, 8]"
  by (simp add: pkcs7_pad_def replicate_num)

lemma pad0: "pkcs7_pad [] = [8, 8, 8, 8, 8, 8, 8, 8]"
  by (simp add: pkcs7_pad_def replicate_num)

lemma enc0: "encrypt_file toy_lib (Some \<lparr>content = [], short_reads = []\<rparr>)
       (Some \<lparr>written = [], room = None\<rparr>) [104, 105] [] [] = Some (Returned, [9, 9, 9, 9, 9, 9, 9, 9])"
  by (simp add: encrypt_file_unlimited [OF toy_digest_hi toy_lib_simps(4,5)] pad0 key1
      cbc_encrypt_block toy_lib_simps replicate_num)

lemma enc8: "encrypt_file toy_lib (Some \<lparr>content = [1, 2, 3, 4, 5, 6, 7, 8], short_reads = []\<rparr>)
       (Some \<lparr>written = [], room = None\<rparr>) [104, 105] [] [] =
       Some (Returned, [2, 3, 4, 5, 6, 7, 8, 9, 11, 12, 13, 14, 15, 16, 1, 2])"
  by (simp add: encrypt_file_unlimited [OF toy_digest_hi toy_lib_simps(4,5)] pad8 key1
      cbc_encrypt_two_blocks toy_lib_simps replicate_num)

theorem padding_only_and_aligned_inputs_witness:
  "encrypt_file toy_lib (Some \<lparr>content = [], short_reads = []\<rparr>)
       (Some \<lparr>written = [], room = None\<rparr>) [104, 105] [] [] = Some (Returned, [9, 9, 9, 9, 9, 9, 9, 9]) \<and>
   length [1, 2, 3, 4, 5, 6, 7, 8 :: byte] mod 8 = 0 \<and>
   encrypt_file toy_lib (Some \<lparr>content = [1, 2, 3, 4, 5, 6, 7, 8], short_reads = []\<rparr>)
       (Some \<lparr>written = [], room = None\<rparr>) [104, 105] [] [] =
       Some (Returned, [2, 3, 4, 5, 6, 7, 8, 9, 11, 12, 13, 14, 15, 16, 1, 2]) \<and>
   length [2, 3, 4, 5, 6, 7, 8, 9, 11, 12, 13, 14, 15, 16, 1, 2 :: byte] = length [1, 2, 3, 4, 5, 6, 7, 8 :: byte] + 8"
proof -
  have io: "0 \<notin> set ([] :: nat list)" by simp
  from padding_only_and_aligned_inputs [OF toy_digest_hi toy_lib_simps(4,5) toy_lib_blocks(1) io,
      of "[1, 2, 3, 4, 5, 6, 7, 8]" "[]" "[]"]
  show ?thesis by (simp add: enc0 enc8)
qed

text \<open>
  Claim C5, as amended. \<open>decrypt_file\<close> returns only when the ciphertext is a positive
  number of whole blocks and the last decrypted block ends in valid padding (a count from
  1 to 8 in the last byte, and that many trailing bytes equal to it); it then writes the
  plaintext without the padding. In every other case the call fails, and the last block
  is not written; the failure is not an error of a kind of its own: the process exits
  with status 1 after the message ``Error occurred'', as for every other failure after
  the streams were opened.
\<close>

theorem padding_validated:
  assumes dig: "sha256 lib (take (strlen password) password) = Some d" "length d = 32"
    and lib: "ctx_new_ok lib" "cipher_init_ok lib"
    and D: "block_to_block (des_ede3_decrypt lib)"
    and io: "0 \<notin> set (short_reads inp)" "room out = None"
  shows "decrypt_file lib (Some inp) (Some out) password key iv =
     (let c = content inp; p = fst (cbc_decrypt lib (take 24 d) (drop 24 d) c);
          blk = drop (length p - 8) p
      in if c \<noteq> [] \<and> length c mod 8 = 0 \<and> valid_padding blk
         then Some (Returned, written out @ take (length p - unat (last blk)) p)
         else Some (Exited 1 ''Error occurred\<newline>'',
                    written out @ (if c \<noteq> [] \<and> length c mod 8 = 0 then take (length p - 8) p else p)))"
  using io(2) by (simp add: decrypt_file_eq [OF dig lib D io(1)] Let_def fwrite_unlimited)

lemma cbc_decrypt_block:
  "length inp = 8 \<Longrightarrow> cbc_decrypt lib k iv inp = (map2 (XOR) iv (des_ede3_decrypt lib k inp), inp)"
  by (simp add: cbc_decrypt_step cbc_decrypt_short)

theorem padding_validated_witness:
  "decrypt_file toy_lib (Some \<lparr>content = [2, 3, 4, 6, 6, 6, 6, 6], short_reads = []\<rparr>)
       (Some \<lparr>written = [], room = None\<rparr>) [104, 105] [] [] = Some (Returned, [1, 2, 3]) \<and>
   decrypt_file toy_lib (Some \<lparr>content = [2, 3, 4, 6, 6, 6, 6, 7], short_reads = []\<rparr>)
       (Some \<lparr>written = [], room = None\<rparr>) [104, 105] [] [] = Some (Exited 1 ''Error occurred\<newline>'', []) \<and>
   decrypt_file toy_lib (Some \<lparr>content = [2, 3, 4, 6, 6, 6, 6, 1], short_reads = []\<rparr>)
       (Some \<lparr>written = [], room = None\<rparr>) [104, 105] [] [] = Some (Exited 1 ''Error occurred\<newline>'', [])"
proof -
  have io: "0 \<notin> set (short_reads \<lparr>content = c, short_reads = []\<rparr>)"
    "room \<lparr>written = ([] :: bytes), room = None\<rparr> = None" for c :: bytes by simp_all
  note T = padding_validated [OF toy_digest_hi toy_lib_simps(4,5) toy_lib_blocks(2) io, of _ "[]" "[]"]
  have 1: "decrypt_file toy_lib (Some \<lparr>content = [2, 3, 4, 6, 6, 6, 6, 6], short_reads = []\<rparr>)
       (Some \<lparr>written = [], room = None\<rparr>) [104, 105] [] [] = Some (Returned, [1, 2, 3])"
    unfolding T by (simp add: Let_def key1 cbc_decrypt_block toy_lib_simps replicate_num valid_padding_def)
  have 2: "decrypt_file toy_lib (Some \<lparr>content = [2, 3, 4, 6, 6, 6, 6, 7], short_reads = []\<rparr>)
       (Some \<lparr>written = [], room = None\<rparr>) [104, 105] [] [] = Some (Exited 1 ''Error occurred\<newline>'', [])"
    unfolding T by (simp add: Let_def key1 cbc_decrypt_block toy_lib_simps replicate_num valid_padding_def)
  have 3: "decrypt_file toy_lib (Some \<lparr>content = [2, 3, 4, 6, 6, 6, 6, 1], short_reads = []\<rparr>)
       (Some \<lparr>written = [], room = None\<rparr>) [104, 105] [] [] = Some (Exited 1 ''Error occurred\<newline>'', [])"
    unfolding T by (simp add: Let_def key1 cbc_decrypt_block toy_lib_simps replicate_num valid_padding_def)
  from 1 2 3 show ?thesis by blast
qed

text \<open>
  The last block of the ciphertext decrypts to 1, 2, 3, 5, 5, 5, 5, 8: the count is 8 but
  the trailing bytes are not all 8. \<open>decrypt_file\<close> does not return an error of its own
  kind: the process exits with status 1 after ``Error occurred'', which is to the last
  byte what happens on the same input when the cipher cannot be initialised.
\<close>

theorem padding_error_counterexample:
  "decrypt_file toy_lib (Some \<lparr>content = [2, 3, 4, 6, 6, 6, 6, 9], short_reads = []\<rparr>)
       (Some \<lparr>written = [], room = None\<rparr>) [104, 105] [] [] = Some (Exited 1 ''Error occurred\<newline>'', []) \<and>
   decrypt_file init_fails (Some \<lparr>content = [2, 3, 4, 6, 6, 6, 6, 9], short_reads = []\<rparr>)
       (Some \<lparr>written = [], room = None\<rparr>) [104, 105] [] [] = Some (Exited 1 ''Error occurred\<newline>'', [])"
proof
  show "decrypt_file toy_lib (Some \<lparr>content = [2, 3, 4, 6, 6, 6, 6, 9], short_reads = []\<rparr>)
       (Some \<lparr>written = [], room = None\<rparr>) [104, 105] [] [] = Some (Exited 1 ''Error occurred\<newline>'', [])"
    by (simp add: decrypt_file_eq [OF toy_digest_hi toy_lib_simps(4,5) toy_lib_blocks(2)]
      Let_def key1 cbc_decrypt_block toy_lib_simps replicate_num valid_padding_def fwrite_def)
  have g: "generate_key_iv init_fails [104, 105] [] [] =
      Some (Inr (1, take 24 ([104, 105] @ replicate 30 0) @ drop 24 [], drop 24 ([104, 105] @ replicate 30 0) @ drop 8 []))"
    by (rule generate_key_iv_digest) (simp_all add: failing_libs toy_digest_hi)
  show "decrypt_file init_fails (Some \<lparr>content = [2, 3, 4, 6, 6, 6, 6, 9], short_reads = []\<rparr>)
       (Some \<lparr>written = [], room = None\<rparr>) [104, 105] [] [] = Some (Exited 1 ''Error occurred\<newline>'', [])"
    by (simp add: decrypt_file_def g EVP_CIPHER_CTX_new_def EVP_DecryptInit_ex_def EVP_CipherInit_def
        failing_libs)
qed

lemma encrypt_file_schedule:
  assumes "0 \<notin> set sr"
  shows "encrypt_file lib (Some \<lparr>content = b, short_reads = sr\<rparr>) output_file password key iv =
         encrypt_file lib (Some \<lparr>content = b, short_reads = []\<rparr>) output_file password key iv"
proof -
  have 1: "encrypt_loop lib ctx \<lparr>content = b, short_reads = sr\<rparr> out =
           encrypt_loop lib ctx \<lparr>content = b, short_reads = []\<rparr> out" for ctx out
    using assms by (simp add: encrypt_loop_eq)
  show ?thesis
    by (cases output_file)
       (simp_all add: encrypt_file_def 1 cong: option.case_cong sum.case_cong prod.case_cong if_cong)
qed

text \<open>
  Claim C8. However the reads cut the input into pieces, the read loop of
  \<open>encrypt_file\<close> leaves the context and the output that one call of
  \<open>EVP_EncryptUpdate\<close> on the whole input leaves, and \<open>encrypt_file\<close> gives the same
  result for any two ways of cutting the same input.
\<close>

theorem chunking_irrelevant:
  assumes "0 \<notin> set sr" "0 \<notin> set sr'"
  shows "encrypt_loop lib ctx \<lparr>content = b, short_reads = sr\<rparr> out =
           (Returned, snd (snd (EVP_EncryptUpdate lib ctx b)),
            snd (fwrite (fst (snd (EVP_EncryptUpdate lib ctx b))) out)) \<and>
         encrypt_file lib (Some \<lparr>content = b, short_reads = sr\<rparr>) output_file password key iv =
         encrypt_file lib (Some \<lparr>content = b, short_reads = sr'\<rparr>) output_file password key iv"
  using assms encrypt_file_schedule [of sr lib b] encrypt_file_schedule [of sr' lib b]
  by (simp add: encrypt_loop_eq)

theorem chunking_irrelevant_witness:
  "encrypt_file toy_lib (Some \<lparr>content = [1, 2, 3, 4, 5, 6, 7, 8], short_reads = [3, 1, 2, 2]\<rparr>)
       (Some \<lparr>written = [], room = None\<rparr>) [104, 105] [] [] =
     Some (Returned, [2, 3, 4, 5, 6, 7, 8, 9, 11, 12, 13, 14, 15, 16, 1, 2]) \<and>
   encrypt_file toy_lib (Some \<lparr>content = [1, 2, 3, 4, 5, 6, 7, 8], short_reads = []\<rparr>)
       (Some \<lparr>written = [], room = None\<rparr>) [104, 105] [] [] =
     Some (Returned, [2, 3, 4, 5, 6, 7, 8, 9, 11, 12, 13, 14, 15, 16, 1, 2])"
proof -
  have io: "0 \<notin> set [3, 1, 2, 2 :: nat]" "0 \<notin> set ([] :: nat list)" by simp_all
  from chunking_irrelevant [OF io, of toy_lib _ "[1, 2, 3, 4, 5, 6, 7, 8]" _
      "Some \<lparr>written = [], room = None\<rparr>" "[104, 105]" "[]" "[]"]
  show ?thesis by (simp add: enc8)
qed

lemma encrypt_loop_out:
  "fst (encrypt_loop lib ctx inp out) = fst (encrypt_loop lib ctx inp out') \<and>
   fst (snd (encrypt_loop lib ctx inp out)) = fst (snd (encrypt_loop lib ctx inp out'))"
proof (induction lib ctx inp out arbitrary: out' rule: encrypt_loop.induct)
  case (1 lib ctx inp out)
  obtain inbuf inp' where fr: "fread BUF_SIZE inp = (inbuf, inp')" by (cases "fread BUF_SIZE inp")
  show ?case
  proof (cases "0 < int (length inbuf)")
    case False
    then show ?thesis
      by (simp add: encrypt_loop.simps [of lib ctx inp] fr)
  next
    case True
    let ?u = "EVP_EncryptUpdate lib ctx inbuf"
    have u: "?u = (1, fst (snd ?u), snd (snd ?u))"
      by (metis EVP_EncryptUpdate_ret prod.collapse)
    have step: "encrypt_loop lib ctx inp o1 = encrypt_loop lib (snd (snd ?u)) inp' (snd (fwrite (fst (snd ?u)) o1))" for o1
      apply (subst encrypt_loop.simps)
      apply (simp only: fr prod.case)
      apply (subst u)
      using True apply (simp only: prod.case if_True)
      apply simp
      done
    show ?thesis
      unfolding step
      by (rule "1.IH" [OF fr [symmetric] True u [symmetric] refl]) simp
  qed
qed

lemma decrypt_loop_out:
  "fst (decrypt_loop lib ctx inp out) = fst (decrypt_loop lib ctx inp out') \<and>
   fst (snd (decrypt_loop lib ctx inp out)) = fst (snd (decrypt_loop lib ctx inp out'))"
proof (induction lib ctx inp out arbitrary: out' rule: decrypt_loop.induct)
  case (1 lib ctx inp out)
  obtain inbuf inp' where fr: "fread BUF_SIZE inp = (inbuf, inp')" by (cases "fread BUF_SIZE inp")
  show ?case
  proof (cases "0 < int (length inbuf)")
    case False
    then show ?thesis
      by (simp add: decrypt_loop.simps [of lib ctx inp] fr)
  next
    case True
    let ?u = "EVP_DecryptUpdate lib ctx inbuf"
    have u: "?u = (1, fst (snd ?u), snd (snd ?u))"
      by (metis EVP_DecryptUpdate_ret prod.collapse)
    have step: "decrypt_loop lib ctx inp o1 = decrypt_loop lib (snd (snd ?u)) inp' (snd (fwrite (fst (snd ?u)) o1))" for o1
      apply (subst decrypt_loop.simps)
      apply (simp only: fr prod.case)
      apply (subst u)
      using True apply (simp only: prod.case if_True)
      apply simp
      done
    show ?thesis
      unfolding step
      by (rule "1.IH" [OF fr [symmetric] True u [symmetric] refl]) simp
  qed
qed

lemma encrypt_tail_out:
  "map_option fst
     (case encrypt_loop lib ctx inp out of
        (Exited st msg, ctx1, out1) \<Rightarrow> Some (Exited st msg, written out1)
      | (Returned, ctx1, out1) \<Rightarrow>
          (case EVP_EncryptFinal_ex lib ctx1 of
             (r', outbuf) \<Rightarrow>
               if r' \<noteq> 1 then Some (Exited 1 ''Error occurred\<newline>'', written out1)
               else Some (Returned, written (snd (fwrite outbuf out1))))) =
   map_option fst
     (case encrypt_loop lib ctx inp out' of
        (Exited st msg, ctx1, out1) \<Rightarrow> Some (Exited st msg, written out1)
      | (Returned, ctx1, out1) \<Rightarrow>
          (case EVP_EncryptFinal_ex lib ctx1 of
             (r', outbuf) \<Rightarrow>
               if r' \<noteq> 1 then Some (Exited 1 ''Error occurred\<newline>'', written out1)
               else Some (Returned, written (snd (fwrite outbuf out1)))))"
proof -
  obtain oc c1 o1 where a: "encrypt_loop lib ctx inp out = (oc, c1, o1)"
    by (cases "encrypt_loop lib ctx inp out")
  obtain oc' c1' o1' where b: "encrypt_loop lib ctx inp out' = (oc', c1', o1')"
    by (cases "encrypt_loop lib ctx inp out'")
  from encrypt_loop_out [of lib ctx inp out out'] a b have e: "oc' = oc" "c1' = c1" by simp_all
  show ?thesis unfolding a b e by (simp split: outcome.splits prod.splits)
qed

lemma decrypt_tail_out:
  "map_option fst
     (case decrypt_loop lib ctx inp out of
        (Exited st msg, ctx1, out1) \<Rightarrow> Some (Exited st msg, written out1)
      | (Returned, ctx1, out1) \<Rightarrow>
          (case EVP_DecryptFinal_ex ctx1 of
             (r', outbuf) \<Rightarrow>
               if r' \<noteq> 1 then Some (Exited 1 ''Error occurred\<newline>'', written out1)
               else Some (Returned, written (snd (fwrite outbuf out1))))) =
   map_option fst
     (case decrypt_loop lib ctx inp out' of
        (Exited st msg, ctx1, out1) \<Rightarrow> Some (Exited st msg, written out1)
      | (Returned, ctx1, out1) \<Rightarrow>
          (case EVP_DecryptFinal_ex ctx1 of
             (r', outbuf) \<Rightarrow>
               if r' \<noteq> 1 then Some (Exited 1 ''Error occurred\<newline>'', written out1)
               else Some (Returned, written (snd (fwrite outbuf out1)))))"
proof -
  obtain oc c1 o1 where a: "decrypt_loop lib ctx inp out = (oc, c1, o1)"
    by (cases "decrypt_loop lib ctx inp out")
  obtain oc' c1' o1' where b: "decrypt_loop lib ctx inp out' = (oc', c1', o1')"
    by (cases "decrypt_loop lib ctx inp out'")
  from decrypt_loop_out [of lib ctx inp out out'] a b have e: "oc' = oc" "c1' = c1" by simp_all
  show ?thesis unfolding a b e by (simp split: outcome.splits prod.splits)
qed

lemma encrypt_file_out:
  "map_option fst (encrypt_file lib input_file (Some out) password key iv) =
   map_option fst (encrypt_file lib input_file (Some out') password key iv)"
  unfolding encrypt_file_def
  by (auto simp: encrypt_tail_out split: option.splits sum.splits prod.splits)

lemma decrypt_file_out:
  "map_option fst (decrypt_file lib input_file (Some out) password key iv) =
   map_option fst (decrypt_file lib input_file (Some out') password key iv)"
  unfolding decrypt_file_def
  by (auto simp: decrypt_tail_out split: option.splits sum.splits prod.splits)

lemma encrypt_loop_step:
  assumes "fread BUF_SIZE inp = (inbuf, inp')"
  shows "encrypt_loop lib ctx inp out =
     (if inbuf = [] then (Returned, ctx, out)
      else encrypt_loop lib (snd (snd (EVP_EncryptUpdate lib ctx inbuf))) inp'
             (snd (fwrite (fst (snd (EVP_EncryptUpdate lib ctx inbuf))) out)))"
proof -
  let ?u = "EVP_EncryptUpdate lib ctx inbuf"
  have u: "?u = (1, fst (snd ?u), snd (snd ?u))"
    by (metis EVP_EncryptUpdate_ret prod.collapse)
  show ?thesis
    apply (subst encrypt_loop.simps)
    apply (simp only: assms prod.case)
    apply (subst u)
    apply (simp only: prod.case)
    apply simp
    done
qed

lemma decrypt_loop_step:
  assumes "fread BUF_SIZE inp = (inbuf, inp')"
  shows "decrypt_loop lib ctx inp out =
     (if inbuf = [] then (Returned, ctx, out)
      else decrypt_loop lib (snd (snd (EVP_DecryptUpdate lib ctx inbuf))) inp'
             (snd (fwrite (fst (snd (EVP_DecryptUpdate lib ctx inbuf))) out)))"
proof -
  let ?u = "EVP_DecryptUpdate lib ctx inbuf"
  have u: "?u = (1, fst (snd ?u), snd (snd ?u))"
    by (metis EVP_DecryptUpdate_ret prod.collapse)
  show ?thesis
    apply (subst decrypt_loop.simps)
    apply (simp only: assms prod.case)
    apply (subst u)
    apply (simp only: prod.case)
    apply simp
    done
qed

lemma fread_Cons:
  "fread BUF_SIZE \<lparr>content = b, short_reads = a # sr\<rparr> =
     (take (min BUF_SIZE a) b, \<lparr>content = drop (min BUF_SIZE a) b, short_reads = sr\<rparr>)"
  by (simp add: fread_def Let_def)

lemma fread_Nil:
  "fread BUF_SIZE \<lparr>content = b, short_reads = []\<rparr> =
     (take BUF_SIZE b, \<lparr>content = drop BUF_SIZE b, short_reads = []\<rparr>)"
  by (simp add: fread_def Let_def)


lemma encrypt_loop_read_failure:
  "0 \<notin> set sr \<Longrightarrow>
   encrypt_loop lib ctx \<lparr>content = b, short_reads = sr @ 0 # rest\<rparr> out =
   encrypt_loop lib ctx \<lparr>content = take (delivered sr) b, short_reads = sr\<rparr> out"
proof (induction sr arbitrary: ctx b out)
  case Nil
  show ?case
    by (simp add: delivered_def encrypt_loop_step [OF fread_Cons] encrypt_loop_step [OF fread_Nil])
next
  case (Cons a sr)
  define k where "k = min BUF_SIZE a"
  have d: "delivered (a # sr) = k + delivered sr" by (simp add: delivered_def k_def)
  have k: "0 < k" using Cons.prems BUF_SIZE_pos by (simp add: k_def)
  have t: "take k (take (k + delivered sr) b) = take k b" by (simp add: min_def)
  have dr: "drop k (take (k + delivered sr) b) = take (delivered sr) (drop k b)"
    by (simp add: drop_take)
  have f1: "fread BUF_SIZE \<lparr>content = b, short_reads = a # sr @ 0 # rest\<rparr> =
      (take k b, \<lparr>content = drop k b, short_reads = sr @ 0 # rest\<rparr>)"
    unfolding k_def by (rule fread_Cons)
  have f2: "fread BUF_SIZE \<lparr>content = take (k + delivered sr) b, short_reads = a # sr\<rparr> =
      (take k b, \<lparr>content = take (delivered sr) (drop k b), short_reads = sr\<rparr>)"
    using fread_Cons [of "take (k + delivered sr) b" a sr] unfolding k_def [symmetric] t dr .
  from Cons.prems have nz: "0 \<notin> set sr" by simp
  show ?case
    unfolding append_Cons d encrypt_loop_step [OF f1] encrypt_loop_step [OF f2]
    using Cons.IH [OF nz] by simp
qed

lemma decrypt_loop_read_failure:
  "0 \<notin> set sr \<Longrightarrow>
   decrypt_loop lib ctx \<lparr>content = b, short_reads = sr @ 0 # rest\<rparr> out =
   decrypt_loop lib ctx \<lparr>content = take (delivered sr) b, short_reads = sr\<rparr> out"
proof (induction sr arbitrary: ctx b out)
  case Nil
  show ?case
    by (simp add: delivered_def decrypt_loop_step [OF fread_Cons] decrypt_loop_step [OF fread_Nil])
next
  case (Cons a sr)
  define k where "k = min BUF_SIZE a"
  have d: "delivered (a # sr) = k + delivered sr" by (simp add: delivered_def k_def)
  have k: "0 < k" using Cons.prems BUF_SIZE_pos by (simp add: k_def)
  have t: "take k (take (k + delivered sr) b) = take k b" by (simp add: min_def)
  have dr: "drop k (take (k + delivered sr) b) = take (delivered sr) (drop k b)"
    by (simp add: drop_take)
  have f1: "fread BUF_SIZE \<lparr>content = b, short_reads = a # sr @ 0 # rest\<rparr> =
      (take k b, \<lparr>content = drop k b, short_reads = sr @ 0 # rest\<rparr>)"
    unfolding k_def by (rule fread_Cons)
  have f2: "fread BUF_SIZE \<lparr>content = take (k + delivered sr) b, short_reads = a # sr\<rparr> =
      (take k b, \<lparr>content = take (delivered sr) (drop k b), short_reads = sr\<rparr>)"
    using fread_Cons [of "take (k + delivered sr) b" a sr] unfolding k_def [symmetric] t dr .
  from Cons.prems have nz: "0 \<notin> set sr" by simp
  show ?case
    unfolding append_Cons d decrypt_loop_step [OF f1] decrypt_loop_step [OF f2]
    using Cons.IH [OF nz] by simp
qed

lemma encrypt_loop_returns: "fst (encrypt_loop lib ctx inp out) = Returned"
proof (induction lib ctx inp out rule: encrypt_loop.induct)
  case (1 lib ctx inp out)
  obtain inbuf inp' where fr: "fread BUF_SIZE inp = (inbuf, inp')" by (cases "fread BUF_SIZE inp")
  show ?case
  proof (cases "inbuf = []")
    case True
    then show ?thesis by (simp add: encrypt_loop_step [OF fr])
  next
    case False
    let ?u = "EVP_EncryptUpdate lib ctx inbuf"
    have u: "?u = (1, fst (snd ?u), snd (snd ?u))"
      by (metis EVP_EncryptUpdate_ret prod.collapse)
    have len: "0 < int (length inbuf)" using False by simp
    show ?thesis
      unfolding encrypt_loop_step [OF fr] using False
      by (simp add: "1.IH" [OF fr [symmetric] len u [symmetric] refl])
  qed
qed

lemma decrypt_loop_returns: "fst (decrypt_loop lib ctx inp out) = Returned"
proof (induction lib ctx inp out rule: decrypt_loop.induct)
  case (1 lib ctx inp out)
  obtain inbuf inp' where fr: "fread BUF_SIZE inp = (inbuf, inp')" by (cases "fread BUF_SIZE inp")
  show ?case
  proof (cases "inbuf = []")
    case True
    then show ?thesis by (simp add: decrypt_loop_step [OF fr])
  next
    case False
    let ?u = "EVP_DecryptUpdate lib ctx inbuf"
    have u: "?u = (1, fst (snd ?u), snd (snd ?u))"
      by (metis EVP_DecryptUpdate_ret prod.collapse)
    have len: "0 < int (length inbuf)" using False by simp
    show ?thesis
      unfolding decrypt_loop_step [OF fr] using False
      by (simp add: "1.IH" [OF fr [symmetric] len u [symmetric] refl])
  qed
qed

lemma encrypt_loop_ReturnedD: "encrypt_loop lib ctx inp out = (oc, c, o1) \<Longrightarrow> oc = Returned"
  using encrypt_loop_returns [of lib ctx inp out] by simp

lemma decrypt_loop_ReturnedD: "decrypt_loop lib ctx inp out = (oc, c, o1) \<Longrightarrow> oc = Returned"
  using decrypt_loop_returns [of lib ctx inp out] by simp

section \<open>Failures\<close>

lemma spec_stream_length:
  "spec_digest_stream H pw prev produced want = Some s \<Longrightarrow> want \<le> length s"
proof (induction H pw prev produced want rule: spec_digest_stream.induct)
  case (1 H password prev produced want)
  show ?case
  proof (cases "want \<le> length produced")
    case True
    with "1.prems" show ?thesis by (simp add: spec_stream_done)
  next
    case False
    with "1.prems" obtain d where d: "H (prev @ password) = Some d" "d \<noteq> []"
      and r: "spec_digest_stream H password d (produced @ d) want = Some s"
      by (subst (asm) spec_digest_stream.simps) (auto split: option.splits if_splits)
    from "1.IH" [OF False d r] show ?thesis .
  qed
qed

lemma spec_derive_lengths:
  "spec_derive H pw = Some (k, v) \<Longrightarrow> length k = 24 \<and> length v = 8"
  by (auto simp: spec_derive_def split: option.splits dest!: spec_stream_length)

lemma generate_key_iv_outcome:
  assumes ne: "\<forall>m d. sha256 lib m = Some d \<longrightarrow> d \<noteq> []"
  shows "map_option (map_sum id fst) (generate_key_iv lib password key iv) =
     Some (if spec_derive (sha256 lib) (take (strlen password) password) = None
           then Inl (Exited 1 ''Error occurred\<newline>'') else Inr 1)"
  by (simp add: generate_key_iv_spec [OF ne] split: option.splits)

lemma encrypt_file_outcome:
  assumes ne: "\<forall>m d. sha256 lib m = Some d \<longrightarrow> d \<noteq> []"
  shows "map_option fst (encrypt_file lib input_file output_file password key iv) =
     Some (if input_file = None \<or> output_file = None
           then Exited 1 ''Unable to open input or output file\<newline>''
           else if spec_derive (sha256 lib) (take (strlen password) password) = None \<or>
                   \<not> ctx_new_ok lib \<or> \<not> cipher_init_ok lib
           then Exited 1 ''Error occurred\<newline>''
           else Returned)"
  by (auto simp: encrypt_file_def generate_key_iv_spec [OF ne] EVP_CIPHER_CTX_new_def
        EVP_EncryptInit_ex_def EVP_CipherInit_def EVP_EncryptFinal_ex_def Let_def
      dest!: encrypt_loop_ReturnedD
      split: option.splits prod.splits outcome.splits)

lemma decrypt_tail_outcome:
  "map_option fst
     (case decrypt_loop lib ctx inp out of
        (Exited st msg, ctx1, out1) \<Rightarrow> Some (Exited st msg, written out1)
      | (Returned, ctx1, out1) \<Rightarrow>
          (case EVP_DecryptFinal_ex ctx1 of
             (r', outbuf) \<Rightarrow>
               if r' \<noteq> 1 then Some (Exited 1 ''Error occurred\<newline>'', written out1)
               else Some (Returned, written (snd (fwrite outbuf out1))))) =
   Some (if fst (EVP_DecryptFinal_ex (fst (snd (decrypt_loop lib ctx inp out)))) \<noteq> 1
         then Exited 1 ''Error occurred\<newline>'' else Returned)"
proof -
  obtain oc c1 o1 where a: "decrypt_loop lib ctx inp out = (oc, c1, o1)"
    by (cases "decrypt_loop lib ctx inp out")
  from decrypt_loop_ReturnedD [OF a] have oc: "oc = Returned" .
  show ?thesis unfolding a oc by (simp split: prod.splits)
qed

lemma decrypt_file_outcome:
  assumes ne: "\<forall>m d. sha256 lib m = Some d \<longrightarrow> d \<noteq> []"
  shows "map_option fst (decrypt_file lib input_file output_file password key iv) =
     Some (case (input_file, output_file) of
             (Some inp, Some out) \<Rightarrow>
               (case spec_derive (sha256 lib) (take (strlen password) password) of
                  None \<Rightarrow> Exited 1 ''Error occurred\<newline>''
                | Some (k, v) \<Rightarrow>
                    if \<not> ctx_new_ok lib \<or> \<not> cipher_init_ok lib then Exited 1 ''Error occurred\<newline>''
                    else if fst (EVP_DecryptFinal_ex (fst (snd (decrypt_loop lib
                                \<lparr>ctx_key = k, ctx_iv = v, buf = [], final = [], final_used = False\<rparr>
                                inp out)))) \<noteq> 1
                    then Exited 1 ''Error occurred\<newline>''
                    else Returned)
           | _ \<Rightarrow> Exited 1 ''Unable to open input or output file\<newline>'')"
proof (cases "\<exists>inp out. input_file = Some inp \<and> output_file = Some out")
  case False
  then show ?thesis
    by (cases input_file; cases output_file) (simp_all add: decrypt_file_def)
next
  case True
  then obtain inp out where io: "input_file = Some inp" "output_file = Some out" by blast
  let ?pw = "take (strlen password) password"
  show ?thesis
  proof (cases "spec_derive (sha256 lib) ?pw")
    case None
    then show ?thesis
      by (simp add: io decrypt_file_def generate_key_iv_spec [OF ne])
  next
    case (Some kv)
    obtain k v where kv: "kv = (k, v)" by (cases kv)
    from spec_derive_lengths [of "sha256 lib" ?pw k v] Some kv
    have l: "length k = 24" "length v = 8" by simp_all
    show ?thesis
    proof (cases "ctx_new_ok lib \<and> cipher_init_ok lib")
      case False
      then show ?thesis
        by (auto simp: io decrypt_file_def generate_key_iv_spec [OF ne] Some kv
            EVP_CIPHER_CTX_new_def EVP_DecryptInit_ex_def EVP_CipherInit_def)
    next
      case True
      then show ?thesis
        using l
        by (simp add: io decrypt_file_def generate_key_iv_spec [OF ne] Some kv
            EVP_CIPHER_CTX_new_def EVP_DecryptInit_ex_def EVP_CipherInit_def EVP_des_ede3_cbc_def
            decrypt_tail_outcome)
    qed
  qed
qed


lemma decrypt_file_padding_outcome:
  assumes dig: "sha256 lib (take (strlen password) password) = Some d" "length d = 32"
    and lib: "ctx_new_ok lib" "cipher_init_ok lib"
    and D: "block_to_block (des_ede3_decrypt lib)"
    and io: "0 \<notin> set (short_reads inp)"
  shows "map_option fst (decrypt_file lib (Some inp) (Some out) password key iv) =
     Some (let c = content inp; p = fst (cbc_decrypt lib (take 24 d) (drop 24 d) c)
           in if c \<noteq> [] \<and> length c mod 8 = 0 \<and> valid_padding (drop (length p - 8) p)
              then Returned else Exited 1 ''Error occurred\<newline>'')"
  by (simp add: decrypt_file_eq [OF dig lib D io] Let_def)

lemma toy_spec_derive:
  "spec_derive (sha256 toy_lib) (take (strlen [104, 105]) [104, 105]) =
     Some (104 # 105 # replicate 22 0, replicate 8 0)"
  by (simp add: spec_derive_def strlen_def toy_lib_def spec_digest_stream.simps [of _ _ "[]" "[]"]
      spec_stream_done)

lemma broken_spec_derive:
  "spec_derive (sha256 broken_digest) pw = None"
  by (simp add: spec_derive_def broken_digest_def spec_digest_stream.simps [of _ _ "[]" "[]"])

lemma digests_not_empty:
  "\<forall>m d. sha256 toy_lib m = Some d \<longrightarrow> d \<noteq> []"
  "\<forall>m d. sha256 broken_digest m = Some d \<longrightarrow> d \<noteq> []"
  "\<forall>m d. sha256 alloc_fails m = Some d \<longrightarrow> d \<noteq> []"
  "\<forall>m d. sha256 init_fails m = Some d \<longrightarrow> d \<noteq> []"
  by (auto simp: alloc_fails_def init_fails_def broken_digest_def toy_lib_def)

text \<open>
  Claim C7, as amended. No failure is handed back to the caller as an error value; every
  call comes back, and with exactly these outcomes (for a digest that never delivers an
  empty digest). \<open>generate_key_iv\<close> returns 1 when the derivation succeeds, and the
  process exits with status 1 after ``Error occurred'' when it fails. In \<open>encrypt_file\<close>
  and \<open>decrypt_file\<close> the process exits with status 1 after ``Unable to open input or
  output file'' when a stream is not opened, and with status 1 after ``Error occurred''
  when the derivation fails, when the context is not allocated, when the cipher is not
  initialised and, in \<open>decrypt_file\<close>, when the final call does not return 1; in every
  other case they return normally. The final call of \<open>decrypt_file\<close> fails, and the
  process exits, exactly when the ciphertext is not a positive number of whole blocks or
  the last decrypted block does not end in valid padding.
\<close>

theorem failures_exit_process:
  assumes ne: "\<forall>m d. sha256 lib m = Some d \<longrightarrow> d \<noteq> []"
  shows "map_option (map_sum id fst) (generate_key_iv lib password key iv) =
           Some (if spec_derive (sha256 lib) (take (strlen password) password) = None
                 then Inl (Exited 1 ''Error occurred\<newline>'') else Inr 1) \<and>
         map_option fst (encrypt_file lib input_file output_file password key iv) =
           Some (if input_file = None \<or> output_file = None
                 then Exited 1 ''Unable to open input or output file\<newline>''
                 else if spec_derive (sha256 lib) (take (strlen password) password) = None \<or>
                         \<not> ctx_new_ok lib \<or> \<not> cipher_init_ok lib
                 then Exited 1 ''Error occurred\<newline>''
                 else Returned) \<and>
         map_option fst (decrypt_file lib input_file output_file password key iv) =
           Some (case (input_file, output_file) of
                   (Some inp, Some out) \<Rightarrow>
                     (case spec_derive (sha256 lib) (take (strlen password) password) of
                        None \<Rightarrow> Exited 1 ''Error occurred\<newline>''
                      | Some (k, v) \<Rightarrow>
                          if \<not> ctx_new_ok lib \<or> \<not> cipher_init_ok lib then Exited 1 ''Error occurred\<newline>''
                          else if fst (EVP_DecryptFinal_ex (fst (snd (decrypt_loop lib
                                      \<lparr>ctx_key = k, ctx_iv = v, buf = [], final = [], final_used = False\<rparr>
                                      inp out)))) \<noteq> 1
                          then Exited 1 ''Error occurred\<newline>''
                          else Returned)
                 | _ \<Rightarrow> Exited 1 ''Unable to open input or output file\<newline>'') \<and>
         (sha256 lib (take (strlen password) password) = Some d \<and> length d = 32 \<and>
          ctx_new_ok lib \<and> cipher_init_ok lib \<and> block_to_block (des_ede3_decrypt lib) \<and>
          0 \<notin> set (short_reads inp) \<longrightarrow>
          map_option fst (decrypt_file lib (Some inp) (Some out) password key iv) =
            Some (let c = content inp; p = fst (cbc_decrypt lib (take 24 d) (drop 24 d) c)
                  in if c \<noteq> [] \<and> length c mod 8 = 0 \<and> valid_padding (drop (length p - 8) p)
                     then Returned else Exited 1 ''Error occurred\<newline>''))"
  using generate_key_iv_outcome [OF ne, of password key iv]
    encrypt_file_outcome [OF ne, of input_file output_file password key iv]
    decrypt_file_outcome [OF ne, of input_file output_file password key iv]
    decrypt_file_padding_outcome [of lib password d inp out key iv]
  by blast

lemma broken_digest_exits:
  "generate_key_iv broken_digest [104, 105] [] [] = Some (Inl (Exited 1 ''Error occurred\<newline>''))"
  by (rule generate_key_iv_digest_fail) (simp add: broken_digest_def)

lemma dec_bad: "decrypt_file toy_lib (Some \<lparr>content = [2, 3, 4, 6, 6, 6, 6, 7], short_reads = []\<rparr>)
       (Some \<lparr>written = [], room = None\<rparr>) [104, 105] [] [] = Some (Exited 1 ''Error occurred\<newline>'', [])"
  by (simp add: decrypt_file_eq [OF toy_digest_hi toy_lib_simps(4,5) toy_lib_blocks(2)]
      Let_def key1 cbc_decrypt_block toy_lib_simps replicate_num valid_padding_def fwrite_def)

text \<open>
  A padding failure in \<open>decrypt_file\<close> and a digest failure in \<open>generate_key_iv\<close> end
  the process: neither comes back to the caller as an error value.
\<close>

theorem failures_exit_process_counterexample:
  "decrypt_file toy_lib (Some \<lparr>content = [2, 3, 4, 6, 6, 6, 6, 7], short_reads = []\<rparr>)
       (Some \<lparr>written = [], room = None\<rparr>) [104, 105] [] [] = Some (Exited 1 ''Error occurred\<newline>'', []) \<and>
   generate_key_iv broken_digest [104, 105] [] [] = Some (Inl (Exited 1 ''Error occurred\<newline>''))"
  using dec_bad broken_digest_exits by (rule conjI)

theorem failures_exit_process_witness:
  "map_option fst (encrypt_file toy_lib None (Some \<lparr>written = [], room = None\<rparr>) [104, 105] [] []) =
     Some (Exited 1 ''Unable to open input or output file\<newline>'') \<and>
   map_option fst (decrypt_file toy_lib (Some \<lparr>content = [1, 2, 3], short_reads = []\<rparr>) None [104, 105] [] []) =
     Some (Exited 1 ''Unable to open input or output file\<newline>'') \<and>
   map_option (map_sum id fst) (generate_key_iv broken_digest [104, 105] [] []) =
     Some (Inl (Exited 1 ''Error occurred\<newline>'')) \<and>
   map_option fst (encrypt_file broken_digest (Some \<lparr>content = [1, 2, 3], short_reads = []\<rparr>)
       (Some \<lparr>written = [], room = None\<rparr>) [104, 105] [] []) = Some (Exited 1 ''Error occurred\<newline>'') \<and>
   map_option fst (decrypt_file alloc_fails (Some \<lparr>content = [2, 3, 4, 6, 6, 6, 6, 6], short_reads = []\<rparr>)
       (Some \<lparr>written = [], room = None\<rparr>) [104, 105] [] []) = Some (Exited 1 ''Error occurred\<newline>'') \<and>
   map_option fst (encrypt_file init_fails (Some \<lparr>content = [1, 2, 3], short_reads = []\<rparr>)
       (Some \<lparr>written = [], room = None\<rparr>) [104, 105] [] []) = Some (Exited 1 ''Error occurred\<newline>'') \<and>
   map_option fst (decrypt_file toy_lib (Some \<lparr>content = [2, 3, 4, 6, 6, 6, 6, 7], short_reads = []\<rparr>)
       (Some \<lparr>written = [], room = None\<rparr>) [104, 105] [] []) = Some (Exited 1 ''Error occurred\<newline>'') \<and>
   map_option fst (decrypt_file toy_lib (Some \<lparr>content = [2, 3, 4, 6, 6, 6, 6, 6], short_reads = []\<rparr>)
       (Some \<lparr>written = [], room = None\<rparr>) [104, 105] [] []) = Some Returned \<and>
   map_option fst (encrypt_file toy_lib (Some \<lparr>content = [1, 2, 3], short_reads = []\<rparr>)
       (Some \<lparr>written = [], room = None\<rparr>) [104, 105] [] []) = Some Returned \<and>
   map_option (map_sum id fst) (generate_key_iv toy_lib [104, 105] [] []) = Some (Inr 1)"
proof -
  note T = failures_exit_process [OF digests_not_empty(1), where password = "[104, 105]" and key = "[]" and iv = "[]"]
  note B = failures_exit_process [OF digests_not_empty(2), where password = "[104, 105]" and key = "[]" and iv = "[]"]
  note A = failures_exit_process [OF digests_not_empty(3), where password = "[104, 105]" and key = "[]" and iv = "[]"]
  note I = failures_exit_process [OF digests_not_empty(4), where password = "[104, 105]" and key = "[]" and iv = "[]"]
  have 1: "map_option fst (encrypt_file toy_lib None (Some \<lparr>written = [], room = None\<rparr>) [104, 105] [] []) =
     Some (Exited 1 ''Unable to open input or output file\<newline>'')"
    using T [of None "Some \<lparr>written = [], room = None\<rparr>"] by simp
  have 2: "map_option fst (decrypt_file toy_lib (Some \<lparr>content = [1, 2, 3], short_reads = []\<rparr>) None [104, 105] [] []) =
     Some (Exited 1 ''Unable to open input or output file\<newline>'')"
    using T [of "Some \<lparr>content = [1, 2, 3], short_reads = []\<rparr>" None] by simp
  have 3: "map_option (map_sum id fst) (generate_key_iv broken_digest [104, 105] [] []) =
     Some (Inl (Exited 1 ''Error occurred\<newline>''))"
    using B by (simp add: broken_spec_derive)
  have 4: "map_option fst (encrypt_file broken_digest (Some \<lparr>content = [1, 2, 3], short_reads = []\<rparr>)
       (Some \<lparr>written = [], room = None\<rparr>) [104, 105] [] []) = Some (Exited 1 ''Error occurred\<newline>'')"
    using B [of "Some \<lparr>content = [1, 2, 3], short_reads = []\<rparr>" "Some \<lparr>written = [], room = None\<rparr>"]
    by (simp add: broken_spec_derive)
  have 5: "map_option fst (decrypt_file alloc_fails (Some \<lparr>content = [2, 3, 4, 6, 6, 6, 6, 6], short_reads = []\<rparr>)
       (Some \<lparr>written = [], room = None\<rparr>) [104, 105] [] []) = Some (Exited 1 ''Error occurred\<newline>'')"
    using A [of "Some \<lparr>content = [2, 3, 4, 6, 6, 6, 6, 6], short_reads = []\<rparr>" "Some \<lparr>written = [], room = None\<rparr>"]
    by (simp add: failing_libs toy_spec_derive)
  have 6: "map_option fst (encrypt_file init_fails (Some \<lparr>content = [1, 2, 3], short_reads = []\<rparr>)
       (Some \<lparr>written = [], room = None\<rparr>) [104, 105] [] []) = Some (Exited 1 ''Error occurred\<newline>'')"
    using I [of "Some \<lparr>content = [1, 2, 3], short_reads = []\<rparr>" "Some \<lparr>written = [], room = None\<rparr>"]
    by (simp add: failing_libs toy_spec_derive)
  have 7: "map_option fst (decrypt_file toy_lib (Some \<lparr>content = [2, 3, 4, 6, 6, 6, 6, 7], short_reads = []\<rparr>)
       (Some \<lparr>written = [], room = None\<rparr>) [104, 105] [] []) = Some (Exited 1 ''Error occurred\<newline>'')"
    using T [where d = "[104, 105] @ replicate 30 0"
        and inp = "\<lparr>content = [2, 3, 4, 6, 6, 6, 6, 7], short_reads = []\<rparr>"
        and out = "\<lparr>written = [], room = None\<rparr>"] toy_digest_hi toy_lib_blocks(2)
    by (simp add: Let_def key1 cbc_decrypt_block toy_lib_simps replicate_num valid_padding_def)
  have 8: "map_option fst (decrypt_file toy_lib (Some \<lparr>content = [2, 3, 4, 6, 6, 6, 6, 6], short_reads = []\<rparr>)
       (Some \<lparr>written = [], room = None\<rparr>) [104, 105] [] []) = Some Returned"
    using T [where d = "[104, 105] @ replicate 30 0"
        and inp = "\<lparr>content = [2, 3, 4, 6, 6, 6, 6, 6], short_reads = []\<rparr>"
        and out = "\<lparr>written = [], room = None\<rparr>"] toy_digest_hi toy_lib_blocks(2)
    by (simp add: Let_def key1 cbc_decrypt_block toy_lib_simps replicate_num valid_padding_def)
  have 9: "map_option fst (encrypt_file toy_lib (Some \<lparr>content = [1, 2, 3], short_reads = []\<rparr>)
       (Some \<lparr>written = [], room = None\<rparr>) [104, 105] [] []) = Some Returned"
    using T [of "Some \<lparr>content = [1, 2, 3], short_reads = []\<rparr>" "Some \<lparr>written = [], room = None\<rparr>"]
    by (simp add: toy_spec_derive toy_lib_simps)
  have 10: "map_option (map_sum id fst) (generate_key_iv toy_lib [104, 105] [] []) = Some (Inr 1)"
    using T by (simp add: toy_spec_derive)
  from 1 2 3 4 5 6 7 8 9 10 show ?thesis by blast
qed

lemma encrypt_file_read_failure:
  assumes "0 \<notin> set sr"
  shows "encrypt_file lib (Some \<lparr>content = b, short_reads = sr @ 0 # rest\<rparr>) output_file password key iv =
         encrypt_file lib (Some \<lparr>content = take (delivered sr) b, short_reads = sr\<rparr>) output_file password key iv"
  by (cases output_file)
     (simp_all add: encrypt_file_def encrypt_loop_read_failure [OF assms]
        cong: option.case_cong sum.case_cong prod.case_cong if_cong)

lemma decrypt_file_read_failure:
  assumes "0 \<notin> set sr"
  shows "decrypt_file lib (Some \<lparr>content = b, short_reads = sr @ 0 # rest\<rparr>) output_file password key iv =
         decrypt_file lib (Some \<lparr>content = take (delivered sr) b, short_reads = sr\<rparr>) output_file password key iv"
  by (cases output_file)
     (simp_all add: decrypt_file_def decrypt_loop_read_failure [OF assms]
        cong: option.case_cong sum.case_cong prod.case_cong if_cong)

text \<open>
  An output device that takes 3 bytes and then fails: \<open>encrypt_file\<close> returns normally
  with 3 of the 8 ciphertext bytes written.
\<close>

theorem write_failure_counterexample:
  "encrypt_file toy_lib (Some \<lparr>content = [1], short_reads = []\<rparr>)
       (Some \<lparr>written = [], room = Some 3\<rparr>) [104, 105] [] [] = Some (Returned, [2, 8, 8])"
  by (simp add: encrypt_file_eq [OF toy_digest_hi toy_lib_simps(4,5)] pad1 key1
      cbc_encrypt_block toy_lib_simps replicate_num fwrite_def)

text \<open>
  Claim C9, as amended. A stream that cannot be opened is detected: the process exits
  with status 1 and the message about opening. After that no read or write failure is
  detected: the value of \<open>fwrite\<close> is never looked at, so the outcome is the same whether
  or not the output device takes the bytes, and a read that hands over nothing is taken
  for the end of the input, so that the bytes read before it are processed as if they
  were the whole input.
\<close>

theorem stream_failures:
  assumes "0 \<notin> set sr"
  shows "encrypt_file lib None output_file password key iv =
           Some (Exited 1 ''Unable to open input or output file\<newline>'',
                 case output_file of None \<Rightarrow> [] | Some out \<Rightarrow> written out) \<and>
         encrypt_file lib input_file None password key iv =
           Some (Exited 1 ''Unable to open input or output file\<newline>'', []) \<and>
         decrypt_file lib None output_file password key iv =
           Some (Exited 1 ''Unable to open input or output file\<newline>'',
                 case output_file of None \<Rightarrow> [] | Some out \<Rightarrow> written out) \<and>
         decrypt_file lib input_file None password key iv =
           Some (Exited 1 ''Unable to open input or output file\<newline>'', []) \<and>
         map_option fst (encrypt_file lib input_file (Some out) password key iv) =
           map_option fst (encrypt_file lib input_file (Some out') password key iv) \<and>
         map_option fst (decrypt_file lib input_file (Some out) password key iv) =
           map_option fst (decrypt_file lib input_file (Some out') password key iv) \<and>
         encrypt_file lib (Some \<lparr>content = b, short_reads = sr @ 0 # rest\<rparr>) output_file password key iv =
           encrypt_file lib (Some \<lparr>content = take (delivered sr) b, short_reads = sr\<rparr>) output_file password key iv \<and>
         decrypt_file lib (Some \<lparr>content = b, short_reads = sr @ 0 # rest\<rparr>) output_file password key iv =
           decrypt_file lib (Some \<lparr>content = take (delivered sr) b, short_reads = sr\<rparr>) output_file password key iv"
proof -
  have 1: "encrypt_file lib None output_file password key iv =
           Some (Exited 1 ''Unable to open input or output file\<newline>'',
                 case output_file of None \<Rightarrow> [] | Some out \<Rightarrow> written out)"
    by (cases output_file) (simp_all add: encrypt_file_def)
  have 2: "encrypt_file lib input_file None password key iv =
           Some (Exited 1 ''Unable to open input or output file\<newline>'', [])"
    by (cases input_file) (simp_all add: encrypt_file_def)
  have 3: "decrypt_file lib None output_file password key iv =
           Some (Exited 1 ''Unable to open input or output file\<newline>'',
                 case output_file of None \<Rightarrow> [] | Some out \<Rightarrow> written out)"
    by (cases output_file) (simp_all add: decrypt_file_def)
  have 4: "decrypt_file lib input_file None password key iv =
           Some (Exited 1 ''Unable to open input or output file\<newline>'', [])"
    by (cases input_file) (simp_all add: decrypt_file_def)
  show ?thesis
    using 1 2 3 4 encrypt_file_out [of lib input_file out password key iv out']
      decrypt_file_out [of lib input_file out password key iv out']
      encrypt_file_read_failure [OF assms, of lib b rest output_file password key iv]
      decrypt_file_read_failure [OF assms, of lib b rest output_file password key iv]
    by blast
qed

lemma delivered_2: "delivered [2] = 2"
  by (simp add: delivered_def BUF_SIZE_def)

lemma pad2: "pkcs7_pad [1, 2] = [1, 2, 6, 6, 6, 6, 6, 6]"
  by (simp add: pkcs7_pad_def replicate_num)

theorem stream_failures_witness:
  "encrypt_file toy_lib (Some \<lparr>content = [1, 2, 3], short_reads = [2, 0, 5]\<rparr>)
       (Some \<lparr>written = [], room = None\<rparr>) [104, 105] [] [] = Some (Returned, [2, 3, 7, 7, 7, 7, 7, 7])"
proof -
  have nz: "0 \<notin> set [2 :: nat]" by simp
  have e: "encrypt_file toy_lib (Some \<lparr>content = [1, 2], short_reads = [2]\<rparr>)
       (Some \<lparr>written = [], room = None\<rparr>) [104, 105] [] [] = Some (Returned, [2, 3, 7, 7, 7, 7, 7, 7])"
    by (simp add: encrypt_file_unlimited [OF toy_digest_hi toy_lib_simps(4,5)] pad2 key1
      cbc_encrypt_block toy_lib_simps replicate_num)
  from stream_failures [OF nz, where lib = toy_lib and b = "[1, 2, 3]" and rest = "[5]"
      and output_file = "Some \<lparr>written = [], room = None\<rparr>" and password = "[104, 105]"
      and key = "[]" and iv = "[]"]
  have "encrypt_file toy_lib (Some \<lparr>content = [1, 2, 3], short_reads = [2] @ 0 # [5]\<rparr>)
       (Some \<lparr>written = [], room = None\<rparr>) [104, 105] [] [] =
        encrypt_file toy_lib (Some \<lparr>content = take (delivered [2]) [1, 2, 3], short_reads = [2]\<rparr>)
       (Some \<lparr>written = [], room = None\<rparr>) [104, 105] [] []"
    by blast
  then show ?thesis by (simp add: delivered_2 e)
qed

end
